theory Spec2Isabelle
  imports Main "HOL-Library.Sublist"
begin

section \<open>Strings\<close>

text \<open>
  Python strings are modelled as \<open>string\<close> (lists of 8-bit characters). Case
  conversion and whitespace are the ASCII ones: every key of the tag tables and every
  directive prefix of the tool is ASCII.
\<close>

definition dquote :: char where
  "dquote = CHR 0x22"

definition newline :: char where
  "newline = CHR 0x0A"

text \<open>\<^verbatim>\<open>str.lower\<close> on ASCII letters.\<close>

definition lower_char :: "char \<Rightarrow> char" where
  "lower_char c =
     (case map_of (zip ''ABCDEFGHIJKLMNOPQRSTUVWXYZ'' ''abcdefghijklmnopqrstuvwxyz'') c of
        Some l \<Rightarrow> l
      | None \<Rightarrow> c)"

definition lower :: "string \<Rightarrow> string" where
  "lower s = map lower_char s"

text \<open>\<^verbatim>\<open>str.isspace\<close> on ASCII: tab, LF, VT, FF, CR, FS, GS, RS, US and space.\<close>

definition is_space :: "char \<Rightarrow> bool" where
  "is_space c =
     (c \<in> set [CHR 0x09, CHR 0x0A, CHR 0x0B, CHR 0x0C, CHR 0x0D,
                CHR 0x1C, CHR 0x1D, CHR 0x1E, CHR 0x1F, CHR 0x20])"

text \<open>\<^verbatim>\<open>str.strip()\<close>, \<^verbatim>\<open>str.rstrip('/')\<close>.\<close>

definition strip :: "string \<Rightarrow> string" where
  "strip s = rev (dropWhile is_space (rev (dropWhile is_space s)))"

definition rstrip_char :: "char \<Rightarrow> string \<Rightarrow> string" where
  "rstrip_char ch s = rev (dropWhile (\<lambda>c. c = ch) (rev s))"

text \<open>\<^verbatim>\<open>s.rfind(ch)\<close>: the index of the last occurrence, or -1.\<close>

fun rfind :: "char \<Rightarrow> string \<Rightarrow> int" where
  "rfind ch [] = - 1"
| "rfind ch (x # xs) =
     (let r = rfind ch xs in if 0 \<le> r then r + 1 else if x = ch then 0 else - 1)"

text \<open>\<^verbatim>\<open>needle in s\<close> for strings.\<close>

fun contains :: "string \<Rightarrow> string \<Rightarrow> bool" where
  "contains needle [] = (needle = [])"
| "contains needle (x # xs) =
     (take (length needle) (x # xs) = needle \<or> contains needle xs)"

text \<open>\<^verbatim>\<open>s.split(sep)\<close> and \<^verbatim>\<open>sep.join(xs)\<close> for a one-character separator.\<close>

fun split_sep :: "char \<Rightarrow> string \<Rightarrow> string list" where
  "split_sep sep [] = [[]]"
| "split_sep sep (c # cs) =
     (if c = sep then [] # split_sep sep cs
      else (case split_sep sep cs of
              [] \<Rightarrow> [[c]]
            | x # xs \<Rightarrow> (c # x) # xs))"

fun join_sep :: "char \<Rightarrow> string list \<Rightarrow> string" where
  "join_sep sep [] = []"
| "join_sep sep [x] = x"
| "join_sep sep (x # y # ys) = x @ sep # join_sep sep (y # ys)"

text \<open>
  \<^verbatim>\<open>s.split(sep, 1)\<close>: \<open>None\<close> when the separator does not occur (the list has
  one element), otherwise the text before and after the first separator.
\<close>

definition split_once :: "char \<Rightarrow> string \<Rightarrow> (string \<times> string) option" where
  "split_once sep s =
     (if sep \<in> set s
      then Some (takeWhile (\<lambda>c. c \<noteq> sep) s, tl (dropWhile (\<lambda>c. c \<noteq> sep) s))
      else None)"

section \<open>Extension tables and tag lookup\<close>

text \<open>\<^verbatim>\<open>os.path.splitext\<close> (the generic implementation with separator \<open>/\<close>).\<close>

definition splitext :: "string \<Rightarrow> string \<times> string" where
  "splitext p =
     (let sepIndex = rfind (CHR ''/'') p;
          dotIndex = rfind (CHR ''.'') p
      in if dotIndex > sepIndex \<and>
            list_ex (\<lambda>k. p ! k \<noteq> CHR ''.'') [nat (sepIndex + 1) ..< nat dotIndex]
         then (take (nat dotIndex) p, drop (nat dotIndex) p)
         else (p, []))"

type_synonym tag_map = "(string \<times> string) list"

definition quartus_tag_map :: tag_map where
  "quartus_tag_map =
     [(''.v'', ''VERILOG_FILE''),
      (''.sv'', ''SYSTEMVERILOG_FILE''),
      (''.vh'', ''SYSTEMVERILOG_FILE''),
      (''.svh'', ''SYSTEMVERILOG_FILE''),
      (''.vhd'', ''VHDL_FILE''),
      (''.vhdl'', ''VHDL_FILE''),
      (''.sdc'', ''SDC_FILE''),
      (''.qsys'', ''QSYS_FILE''),
      (''.ip'', ''IP_FILE''),
      (''.qip'', ''QIP_FILE''),
      (''.json'', ''MISC_FILE''),
      (''.tcl'', ''SOURCE_TCL_SCRIPT_FILE''),
      (''.stp'', ''USE_SIGNALTAP_FILE''),
      (''.hex'', ''MIF_FILE''),
      (''.mif'', ''MIF_FILE'')]"

definition qsys_tag_map :: tag_map where
  "qsys_tag_map =
     [(''.qsys'', ''QSYS_FILE''),
      (''.qip'', ''QIP_FILE''),
      (''.ip'', ''IP_FILE'')]"

definition tcl_tag_map :: tag_map where
  "tcl_tag_map = [(''.tcl'', ''SOURCE_TCL_SCRIPT_FILE'')]"

definition qsys_ipx_tag_map :: tag_map where
  "qsys_ipx_tag_map = [(''.ipx'', ''IPX_FILE'')]"

definition json_tag_map :: tag_map where
  "json_tag_map = [(''.json'', ''MISC_FILE'')]"

definition sim_vlog_tag_map :: tag_map where
  "sim_vlog_tag_map =
     [(''.v'', ''VERILOG_FILE''),
      (''.sv'', ''SYSTEMVERILOG_FILE''),
      (''.vh'', ''SYSTEMVERILOG_FILE''),
      (''.svh'', ''SYSTEMVERILOG_FILE''),
      (''.json'', ''MISC_FILE'')]"

definition sim_vhdl_tag_map :: tag_map where
  "sim_vhdl_tag_map =
     [(''.vhd'', ''VHDL_FILE''),
      (''.vhdl'', ''VHDL_FILE'')]"

text \<open>\<^verbatim>\<open>ext in db\<close> for a dictionary.\<close>

definition in_map :: "string \<Rightarrow> tag_map \<Rightarrow> bool" where
  "in_map ext db = (map_of db ext \<noteq> None)"

text \<open>
  Every way the tool stops: \<^verbatim>\<open>errorExit\<close> at each of its call sites, and the one
  exception that no handler catches (\<^verbatim>\<open>ValueError\<close> from \<^verbatim>\<open>os.path.relpath\<close> on an
  empty path).
\<close>

datatype error =
    UnrecognizedExtension string string
  | FailedToOpen string
  | NoHwLibDir
  | NotHwLibDir string
  | FailedSetFamily
  | FailedSetFamilyExc
  | FailedQuartusVersion
  | QuartusVersionExc
  | ValueErrorNoPath

definition file_ext :: "string \<Rightarrow> string" where
  "file_ext filename = lower (snd (splitext filename))"

definition validateTag :: "string \<Rightarrow> error + unit" where
  "validateTag filename =
     (let ext = file_ext filename
      in if \<not> in_map ext quartus_tag_map \<and>
            \<not> in_map ext qsys_tag_map \<and>
            \<not> in_map ext tcl_tag_map \<and>
            \<not> in_map ext qsys_ipx_tag_map \<and>
            \<not> in_map ext json_tag_map \<and>
            \<not> in_map ext sim_vlog_tag_map \<and>
            \<not> in_map ext sim_vhdl_tag_map
         then Inl (UnrecognizedExtension ext filename)
         else Inr ())"

definition lookupTag :: "string \<Rightarrow> tag_map \<Rightarrow> string option" where
  "lookupTag filename db =
     (let ext = file_ext filename
      in if \<not> in_map ext db then None else map_of db ext)"

text \<open>Python truthiness of the value \<^verbatim>\<open>lookupTag\<close> returns (\<^verbatim>\<open>None\<close> or a string).\<close>

definition truthy :: "string option \<Rightarrow> bool" where
  "truthy t = (case t of None \<Rightarrow> False | Some v \<Rightarrow> v \<noteq> [])"

section \<open>Options\<close>

record opts =
  config_file :: string
  sim :: bool
  sim_vlog :: bool
  sim_vhdl :: bool
  qsf :: bool
  qsys :: bool
  tcl :: bool
  ipx :: bool
  json :: bool
  rel :: string
  abs_mode :: bool
  verbose :: bool
  quiet :: bool
  lib :: "string option"

section \<open>Emission\<close>

text \<open>
  The output is the list of the strings passed to \<^verbatim>\<open>print\<close>, in order. Emission
  returns what was printed and the error that stopped it, if any.
\<close>

definition file_type_filter :: "opts \<Rightarrow> bool" where
  "file_type_filter o' = (qsys o' \<or> ipx o' \<or> json o' \<or> tcl o')"

definition this_dir_line :: string where
  "this_dir_line = ''set THIS_DIR [file dirname [info script]'' @ '']'' @ [newline]"

definition rel_prefix :: "opts \<Rightarrow> string" where
  "rel_prefix o' =
     (if \<not> file_type_filter o' \<and> \<not> sim o' \<and> \<not> abs_mode o' then ''${THIS_DIR}/'' else [])"

definition emitHeader :: "opts \<Rightarrow> string list" where
  "emitHeader o' = (if \<not> sim o' \<and> \<not> abs_mode o' then [this_dir_line] else [])"

definition macro_line :: "string \<Rightarrow> string" where
  "macro_line c =
     ''set_global_assignment -name VERILOG_MACRO '' @ [dquote] @ drop 8 c @ [dquote]"

definition search_path_line :: "string \<Rightarrow> string \<Rightarrow> string" where
  "search_path_line pre c =
     ''set_global_assignment -name SEARCH_PATH '' @ [dquote] @ pre @ drop 8 c @ [dquote]"

definition source_line :: "string \<Rightarrow> string \<Rightarrow> string" where
  "source_line pre v = ''source '' @ [dquote] @ pre @ v @ [dquote]"

definition assignment_line :: "string \<Rightarrow> string \<Rightarrow> string \<Rightarrow> string" where
  "assignment_line tag pre c =
     ''set_global_assignment -name '' @ tag @ '' '' @ [dquote] @ pre @ c @ [dquote]"

text \<open>The first loop of \<^verbatim>\<open>emitCfg\<close>: preprocessor definitions.\<close>

fun emitDefines :: "opts \<Rightarrow> string list \<Rightarrow> string list" where
  "emitDefines o' [] = []"
| "emitDefines o' (c # cfg) =
     (if take 8 c = ''+define+''
      then (if sim_vlog o' then [c]
            else if sim_vhdl o' then []
            else [macro_line c])
      else []) @ emitDefines o' cfg"

text \<open>The second loop: include directories.\<close>

fun emitIncdirs :: "opts \<Rightarrow> string list \<Rightarrow> string list" where
  "emitIncdirs o' [] = []"
| "emitIncdirs o' (c # cfg) =
     (if take 8 c = ''+incdir+''
      then (if sim_vlog o' then [c]
            else if sim_vhdl o' then []
            else [search_path_line (rel_prefix o') c])
      else []) @ emitIncdirs o' cfg"

text \<open>
  The body of the third loop, for one entry: first its last branch (a source file,
  validated and then emitted according to the mode), then the whole body.
\<close>

definition emitSourceFile :: "opts \<Rightarrow> string \<Rightarrow> string list \<times> error option" where
  "emitSourceFile o' c =
     (case validateTag c of
        Inl e \<Rightarrow> ([], Some e)
      | Inr u \<Rightarrow>
         (let tag = lookupTag c quartus_tag_map
          in if sim_vlog o' then
               (if truthy (lookupTag c sim_vlog_tag_map) then ([c], None) else ([], None))
             else if sim_vhdl o' then
               (if truthy (lookupTag c sim_vhdl_tag_map) then ([c], None) else ([], None))
             else if json o' then
               (if truthy (lookupTag c json_tag_map) then ([c], None) else ([], None))
             else if qsys o' then
               (if truthy (lookupTag c qsys_tag_map) then ([c], None) else ([], None))
             else if ipx o' then
               (if truthy (lookupTag c qsys_ipx_tag_map) then ([c], None) else ([], None))
             else if tcl o' then
               (if truthy (lookupTag c tcl_tag_map) then ([c], None) else ([], None))
             else
               (case tag of
                  None \<Rightarrow> ([], None)
                | Some t \<Rightarrow>
                   (if t \<noteq> ''SOURCE_TCL_SCRIPT_FILE''
                    then ([assignment_line t (rel_prefix o') c], None)
                    else ([], None)))))"

definition emitEntry :: "opts \<Rightarrow> string \<Rightarrow> string list \<times> error option" where
  "emitEntry o' c =
     (let sp = split_once (CHR '':'') c;
          has_cmd = (sp \<noteq> None);
          cmd = (case sp of Some (a, b) \<Rightarrow> a | None \<Rightarrow> []);
          val = (case sp of Some (a, b) \<Rightarrow> b | None \<Rightarrow> [])
      in if take 1 c = ''+'' then ([], None)
         else if has_cmd \<and> (cmd = ''SI'' \<or> cmd = ''SI_VLOG'') then
           (if truthy (lookupTag val tcl_tag_map) \<and> (sim_vlog o' \<or> tcl o') then ([val], None)
            else if sim_vlog o' then ([''-F '' @ val], None)
            else ([], None))
         else if has_cmd \<and> cmd = ''SI_VHDL'' then
           (if truthy (lookupTag val tcl_tag_map) \<and> (sim_vhdl o' \<or> tcl o') then ([val], None)
            else if sim_vhdl o' then ([''-F '' @ val], None)
            else ([], None))
         else if has_cmd \<and> cmd = ''QI'' then
           (if \<not> sim o' \<and> \<not> file_type_filter o'
            then ([source_line (rel_prefix o') val], None)
            else ([], None))
         else emitSourceFile o' c)"

text \<open>The third loop: it stops at the first fatal error, keeping what was printed.\<close>

fun emitSources :: "opts \<Rightarrow> string list \<Rightarrow> string list \<times> error option" where
  "emitSources o' [] = ([], None)"
| "emitSources o' (c # cfg) =
     (case emitEntry o' c of
        (out, Some e) \<Rightarrow> (out, Some e)
      | (out, None) \<Rightarrow>
         (case emitSources o' cfg of (out', r) \<Rightarrow> (out @ out', r)))"

definition emitCfg :: "opts \<Rightarrow> string list \<Rightarrow> string list \<times> error option" where
  "emitCfg o' cfg =
     (let pre = (if \<not> file_type_filter o'
                 then emitHeader o' @ emitDefines o' cfg @ emitIncdirs o' cfg
                 else [])
      in case emitSources o' cfg of (out, r) \<Rightarrow> (pre @ out, r))"

section \<open>Paths\<close>

text \<open>
  What the tool reads from outside: files (as the lines that iterating over the open
  file yields), the directory test, the existence test, the working directory, the two
  external commands (standard output as lines, and exit code) and the two regular
  expression substitutions of \<^verbatim>\<open>getQuartusVersion\<close>.
\<close>

record world =
  files :: "string \<Rightarrow> string list option"
  isdir :: "string \<Rightarrow> bool"
  path_exists :: "string \<Rightarrow> bool"
  cwd :: string
  fam_cmd :: "string \<Rightarrow> string list \<times> int"
  quartus_cmd :: "string list \<times> int"
  re_sub_major :: "string \<Rightarrow> string"
  re_sub_major_minor :: "string \<Rightarrow> string"

text \<open>\<^verbatim>\<open>posixpath.join\<close> with two arguments, and with a non-empty argument list.\<close>

definition path_join :: "string \<Rightarrow> string \<Rightarrow> string" where
  "path_join a b =
     (if take 1 b = ''/'' then b
      else if a = [] \<or> last a = CHR ''/'' then a @ b
      else a @ ''/'' @ b)"

definition path_join_list :: "string list \<Rightarrow> string" where
  "path_join_list xs = foldl path_join (hd xs) (tl xs)"

text \<open>\<^verbatim>\<open>posixpath.dirname\<close>.\<close>

definition dirname :: "string \<Rightarrow> string" where
  "dirname p =
     (let i = nat (rfind (CHR ''/'') p + 1);
          head = take i p
      in if head \<noteq> [] \<and> head \<noteq> replicate (length head) (CHR ''/'')
         then rstrip_char (CHR ''/'') head
         else head)"

text \<open>\<^verbatim>\<open>posixpath.normpath\<close>: the body of its loop, then the function.\<close>

definition norm_step :: "bool \<Rightarrow> string list \<Rightarrow> string \<Rightarrow> string list" where
  "norm_step initial_slashes new_comps cmp =
     (if cmp = [] \<or> cmp = ''.'' then new_comps
      else if cmp \<noteq> ''..'' \<or> (\<not> initial_slashes \<and> new_comps = []) \<or>
              (new_comps \<noteq> [] \<and> last new_comps = ''..'')
      then new_comps @ [cmp]
      else if new_comps \<noteq> [] then butlast new_comps
      else new_comps)"

definition normpath :: "string \<Rightarrow> string" where
  "normpath path =
     (if path = [] then ''.''
      else
        (let initial_slashes =
               (if take 1 path = ''/''
                then (if take 2 path = ''//'' \<and> take 3 path \<noteq> ''///'' then 2 else 1)
                else (0::nat));
             comps = split_sep (CHR ''/'') path;
             new_comps = foldl (norm_step (initial_slashes \<noteq> 0)) [] comps;
             p = replicate initial_slashes (CHR ''/'') @ join_sep (CHR ''/'') new_comps
         in if p = [] then ''.'' else p))"

text \<open>\<^verbatim>\<open>posixpath.abspath\<close>.\<close>

definition abspath :: "world \<Rightarrow> string \<Rightarrow> string" where
  "abspath w path =
     normpath (if take 1 path \<noteq> ''/'' then path_join (cwd w) path else path)"

text \<open>
  \<^verbatim>\<open>os.path.commonprefix\<close> of two lists: the longest common prefix (taking the
  minimum and the maximum of the two first, as the library does, does not change it).
\<close>

fun commonprefix :: "'a list \<Rightarrow> 'a list \<Rightarrow> 'a list" where
  "commonprefix (x # xs) (y # ys) = (if x = y then x # commonprefix xs ys else [])"
| "commonprefix xs ys = []"

text \<open>\<^verbatim>\<open>posixpath.relpath\<close>: it raises \<^verbatim>\<open>ValueError\<close> on an empty path.\<close>

definition path_comps :: "string \<Rightarrow> string list" where
  "path_comps p = filter (\<lambda>x. x \<noteq> []) (split_sep (CHR ''/'') p)"

definition relpath :: "world \<Rightarrow> string \<Rightarrow> string \<Rightarrow> error + string" where
  "relpath w path start =
     (if path = [] then Inl ValueErrorNoPath
      else
        (let start_list = path_comps (abspath w start);
             path_list = path_comps (abspath w path);
             i = length (commonprefix start_list path_list);
             rel_list = replicate (length start_list - i) ''..'' @ drop i path_list
         in if rel_list = [] then Inr ''.'' else Inr (path_join_list rel_list)))"

text \<open>\<^verbatim>\<open>fixRelPath\<close>.\<close>

definition fixRelPath :: "world \<Rightarrow> opts \<Rightarrow> string \<Rightarrow> string \<Rightarrow> string \<Rightarrow> error + string" where
  "fixRelPath w o' c config_dir tgt_dir =
     (if length c = 0 then Inr c
      else if take 8 c = ''+define+'' then Inr c
      else
        (let (prefix, c') =
               (if take 8 c = ''+incdir+'' then (''+incdir+'', drop 8 c)
                else (case split_once (CHR '':'') c of
                        None \<Rightarrow>
                          (if isdir w (path_join config_dir c) then ''+incdir+'' else [], c)
                      | Some (a, b) \<Rightarrow> (a @ '':'', b)))
         in case relpath w (path_join config_dir c') tgt_dir of
              Inl e \<Rightarrow> Inl e
            | Inr p \<Rightarrow> Inr (prefix @ (if abs_mode o' then abspath w p else p))))"

section \<open>Environment and external commands\<close>

text \<open>
  The process state: the environment, how often each external command has been run,
  and the informational lines written to the error stream.
\<close>

record state =
  env :: "string \<Rightarrow> string option"
  fam_calls :: nat
  quartus_calls :: nat
  stderr :: "string list"

type_synonym 'a result = "(error + 'a) \<times> state"

definition FAMILY :: string where
  "FAMILY = ''OPAE_PLATFORM_FPGA_FAMILY''"

definition QVERSION :: string where
  "QVERSION = ''QUARTUS_VERSION''"

definition QVERSION_MAJOR :: string where
  "QVERSION_MAJOR = ''QUARTUS_VERSION_MAJOR''"

text \<open>
  \<^verbatim>\<open>posixpath.expandvars\<close>: \<open>$NAME\<close> and \<open>${NAME}\<close> are replaced when the variable
  is set and left as they are otherwise; a replaced value is not expanded again.
\<close>

definition is_word_char :: "char \<Rightarrow> bool" where
  "is_word_char c =
     (c \<in> set ''abcdefghijklmnopqrstuvwxyzABCDEFGHIJKLMNOPQRSTUVWXYZ0123456789_'')"

text \<open>
  The text after a \<open>$\<close>: the variable name that the pattern \<^verbatim>\<open>\w+|\{[^}]*\}\<close>
  matches there, and the number of characters matched.
\<close>

definition match_var :: "string \<Rightarrow> (string \<times> nat) option" where
  "match_var rest =
     (let wd = takeWhile is_word_char rest
      in if wd \<noteq> [] then Some (wd, length wd)
         else (case rest of
                 [] \<Rightarrow> None
               | b # r \<Rightarrow>
                   (if b = CHR ''{'' \<and> CHR ''}'' \<in> set r
                    then (let nm = takeWhile (\<lambda>c. c \<noteq> CHR ''}'') r
                          in Some (nm, length nm + 2))
                    else None)))"

fun expandvars :: "(string \<Rightarrow> string option) \<Rightarrow> string \<Rightarrow> string" where
  "expandvars e [] = []"
| "expandvars e (c # cs) =
     (if c = CHR ''$'' then
        (case match_var cs of
           None \<Rightarrow> c # expandvars e cs
         | Some (name, k) \<Rightarrow>
            (case e name of
               None \<Rightarrow> c # take k cs @ expandvars e (drop k cs)
             | Some v \<Rightarrow> v @ expandvars e (drop k cs)))
      else c # expandvars e cs)"

text \<open>\<^verbatim>\<open>getHWLibPath\<close>.\<close>

definition check_hw_lib :: "world \<Rightarrow> string \<Rightarrow> error + string" where
  "check_hw_lib w hw_lib_dir =
     (if \<not> path_exists w (path_join hw_lib_dir ''fme-platform-class.txt'')
      then Inl (NotHwLibDir hw_lib_dir)
      else Inr hw_lib_dir)"

definition getHWLibPath :: "world \<Rightarrow> opts \<Rightarrow> state \<Rightarrow> error + string" where
  "getHWLibPath w o' s =
     (case lib o' of
        Some l \<Rightarrow> check_hw_lib w l
      | None \<Rightarrow>
         (case env s ''BBS_LIB_PATH'' of
            Some v \<Rightarrow> check_hw_lib w (rstrip_char (CHR ''/'') v)
          | None \<Rightarrow>
             (case env s ''OPAE_PLATFORM_ROOT'' of
                Some v \<Rightarrow> check_hw_lib w (path_join (rstrip_char (CHR ''/'') v) ''hw/lib'')
              | None \<Rightarrow> Inl NoHwLibDir)))"

text \<open>\<^verbatim>\<open>bytes.decode('ascii')\<close> raises on a byte above 127.\<close>

definition is_ascii :: "string \<Rightarrow> bool" where
  "is_ascii line = list_all (\<lambda>c. (of_char c :: nat) < 128) line"

text \<open>
  The loop of \<^verbatim>\<open>addDefaultFpgaFamily\<close> over the command's output: every line sets
  the variable; a line that does not decode raises, which the handler turns into a
  fatal error.
\<close>

fun familyLoop :: "string list \<Rightarrow> state \<Rightarrow> unit result" where
  "familyLoop [] s = (Inr (), s)"
| "familyLoop (line # rest) s =
     (if \<not> is_ascii line then (Inl FailedSetFamilyExc, s)
      else familyLoop rest (s\<lparr>env := (env s)(FAMILY \<mapsto> strip line)\<rparr>))"

definition addDefaultFpgaFamily :: "world \<Rightarrow> opts \<Rightarrow> state \<Rightarrow> unit result" where
  "addDefaultFpgaFamily w o' s =
     (if env s FAMILY \<noteq> None then (Inr (), s)
      else
        (case getHWLibPath w o' s of
           Inl e \<Rightarrow> (Inl e, s)
         | Inr hw \<Rightarrow>
            (case files w (path_join hw ''fme-platform-class.txt'') of
               None \<Rightarrow> (Inl FailedSetFamilyExc, s)
             | Some content \<Rightarrow>
                (let cmd = ''afu_platform_info --key=fpga-family '' @ strip (concat content);
                     (out, errcode) = fam_cmd w cmd;
                     s1 = s\<lparr>fam_calls := fam_calls s + 1\<rparr>
                 in case familyLoop out s1 of
                      (Inl e, s2) \<Rightarrow> (Inl e, s2)
                    | (Inr u, s2) \<Rightarrow>
                       (if errcode \<noteq> 0 then (Inl FailedSetFamily, s2)
                        else if \<not> quiet o' then
                          (case env s2 FAMILY of
                             None \<Rightarrow> (Inl FailedSetFamilyExc, s2)
                           | Some v \<Rightarrow>
                              (Inr (), s2\<lparr>stderr := stderr s2 @
                                 [''Set OPAE_PLATFORM_FPGA_FAMILY to '' @ v @ [newline]]\<rparr>))
                        else (Inr (), s2))))))"

text \<open>
  \<^verbatim>\<open>getQuartusVersion\<close>: the loop over the command's output carries the flag
  \<^verbatim>\<open>ok\<close>.
\<close>

fun versionLoop :: "world \<Rightarrow> string list \<Rightarrow> bool \<Rightarrow> state \<Rightarrow> bool result" where
  "versionLoop w [] ok s = (Inr ok, s)"
| "versionLoop w (line # rest) ok s =
     (if \<not> is_ascii line then (Inl QuartusVersionExc, s)
      else
        (let l = strip line
         in if take 7 l = ''Version''
            then versionLoop w rest True
                   (s\<lparr>env := (env s)(QVERSION_MAJOR \<mapsto> re_sub_major w l,
                                      QVERSION \<mapsto> re_sub_major_minor w l)\<rparr>)
            else versionLoop w rest ok s))"

definition getQuartusVersion :: "world \<Rightarrow> opts \<Rightarrow> state \<Rightarrow> unit result" where
  "getQuartusVersion w o' s =
     (if env s QVERSION \<noteq> None \<and> env s QVERSION_MAJOR \<noteq> None then (Inr (), s)
      else
        (let (out, errcode) = quartus_cmd w;
             s1 = s\<lparr>quartus_calls := quartus_calls s + 1\<rparr>
         in case versionLoop w out False s1 of
              (Inl e, s2) \<Rightarrow> (Inl e, s2)
            | (Inr ok, s2) \<Rightarrow>
               (if errcode \<noteq> 0 \<or> \<not> ok then (Inl FailedQuartusVersion, s2)
                else if \<not> quiet o' then
                  (case (env s2 QVERSION, env s2 QVERSION_MAJOR) of
                     (Some v, Some m) \<Rightarrow>
                       (Inr (), s2\<lparr>stderr := stderr s2 @
                          [''Set QUARTUS_VERSION to '' @ v @ [newline],
                           ''Set QUARTUS_VERSION_MAJOR to '' @ m @ [newline]]\<rparr>)
                   | _ \<Rightarrow> (Inl QuartusVersionExc, s2))
                else (Inr (), s2))))"

section \<open>Parsing\<close>

text \<open>
  The loop of \<^verbatim>\<open>parseConfigFile\<close> over the lines of one file, in three parts.
  For one line, after the comment is dropped: the two conditional calls that define the
  environment variables the line mentions; then the rest of the loop's body, which returns
  the entries it adds to \<^verbatim>\<open>cfg\<close>; then the loop. The recursive call for \<open>C:\<close>
  lines is the parameter \<open>inc\<close>; it returns \<open>None\<close> when the recursion does not
  return.
\<close>

definition strip_comment :: "string \<Rightarrow> string" where
  "strip_comment l = takeWhile (\<lambda>x. x \<noteq> CHR ''#'') (strip l)"

definition resolveVars :: "world \<Rightarrow> opts \<Rightarrow> string \<Rightarrow> state \<Rightarrow> unit result" where
  "resolveVars w o' c s =
     (case (if contains FAMILY c \<and> env s FAMILY = None
            then addDefaultFpgaFamily w o' s else (Inr (), s)) of
        (Inl e, s1) \<Rightarrow> (Inl e, s1)
      | (Inr u, s1) \<Rightarrow>
         (if contains QVERSION c \<and>
             (env s1 QVERSION = None \<or> env s1 QVERSION_MAJOR = None)
          then getQuartusVersion w o' s1 else (Inr (), s1)))"

definition parseLine ::
  "(string \<Rightarrow> state \<Rightarrow> (string list) result option) \<Rightarrow> world \<Rightarrow> opts \<Rightarrow> string \<Rightarrow> string \<Rightarrow>
   string \<Rightarrow> state \<Rightarrow> (string list) result option" where
  "parseLine inc w o' dir tgt_dir l s =
     (let c = strip_comment l
      in case resolveVars w o' c s of
           (Inl e, s2) \<Rightarrow> Some (Inl e, s2)
         | (Inr u, s2) \<Rightarrow>
            (let c' = expandvars (env s2) c
             in if take 2 c' = ''C:'' then inc (path_join dir (drop 2 c')) s2
                else if length c' \<noteq> 0 then
                  (case fixRelPath w o' c' dir tgt_dir of
                     Inl e \<Rightarrow> Some (Inl e, s2)
                   | Inr p \<Rightarrow> Some (Inr [p], s2))
                else Some (Inr [], s2)))"

fun parseLines ::
  "(string \<Rightarrow> state \<Rightarrow> (string list) result option) \<Rightarrow> world \<Rightarrow> opts \<Rightarrow> string \<Rightarrow> string \<Rightarrow>
   string list \<Rightarrow> string list \<Rightarrow> state \<Rightarrow> (string list) result option" where
  "parseLines inc w o' dir tgt_dir [] cfg s = Some (Inr cfg, s)"
| "parseLines inc w o' dir tgt_dir (l # ls) cfg s =
     (case parseLine inc w o' dir tgt_dir l s of
        None \<Rightarrow> None
      | Some (Inl e, s1) \<Rightarrow> Some (Inl e, s1)
      | Some (Inr es, s1) \<Rightarrow> parseLines inc w o' dir tgt_dir ls (cfg @ es) s1)"

text \<open>
  \<^verbatim>\<open>parseConfigFile\<close>. The source has no guard against a manifest that includes
  itself, so the recursion may not return: the first argument bounds the depth of
  nested includes, and \<open>None\<close> means that the bound was reached.
\<close>

primrec parseConfigFile ::
  "nat \<Rightarrow> world \<Rightarrow> opts \<Rightarrow> string \<Rightarrow> string \<Rightarrow> state \<Rightarrow> (string list) result option" where
  "parseConfigFile 0 w o' cfg_file_name tgt_dir s = None"
| "parseConfigFile (Suc n) w o' cfg_file_name tgt_dir s =
     (if length cfg_file_name = 0 then Some (Inr [], s)
      else
        (case files w cfg_file_name of
           None \<Rightarrow> Some (Inl (FailedToOpen cfg_file_name), s)
         | Some lines \<Rightarrow>
             parseLines (\<lambda>nm st. parseConfigFile n w o' nm tgt_dir st) w o'
               (dirname cfg_file_name) tgt_dir lines [] s))"

section \<open>The command line\<close>

text \<open>
  The target flags are one mutually exclusive group of the argument parser, the path
  flags another: \<open>--rel\<close> defaults to the working directory and excludes \<open>--abs\<close>.
\<close>

datatype target_flag = Sim | SimVlog | SimVhdl | Qsf | Qsys | Tcl | Ipx | Json

datatype path_flag = Rel string | Abs

definition parse_args ::
  "world \<Rightarrow> string \<Rightarrow> target_flag option \<Rightarrow> path_flag option \<Rightarrow> bool \<Rightarrow> string option \<Rightarrow> opts" where
  "parse_args w file tf pf q l =
     \<lparr>config_file = file,
      sim = (tf = Some Sim),
      sim_vlog = (tf = Some SimVlog),
      sim_vhdl = (tf = Some SimVhdl),
      qsf = (tf = Some Qsf),
      qsys = (tf = Some Qsys),
      tcl = (tf = Some Tcl),
      ipx = (tf = Some Ipx),
      json = (tf = Some Json),
      rel = (case pf of Some (Rel d) \<Rightarrow> d | _ \<Rightarrow> cwd w),
      abs_mode = (pf = Some Abs),
      verbose = False,
      quiet = q,
      lib = l\<rparr>"

text \<open>The adjustments \<^verbatim>\<open>main\<close> makes to the parsed options, then \<^verbatim>\<open>main\<close>.\<close>

definition sim_synonyms :: "opts \<Rightarrow> opts" where
  "sim_synonyms o' =
     (let o1 = (if sim o' \<or> sim_vlog o' then o'\<lparr>sim := True, sim_vlog := True\<rparr> else o')
      in if sim_vhdl o1 then o1\<lparr>sim := True\<rparr> else o1)"

definition main ::
  "nat \<Rightarrow> world \<Rightarrow> opts \<Rightarrow> state \<Rightarrow> ((string list \<times> error option) \<times> state) option" where
  "main n w opts0 s =
     (let o' = sim_synonyms opts0
      in case parseConfigFile n w o' (config_file o') (rel o') s of
           None \<Rightarrow> None
         | Some (Inl e, s') \<Rightarrow> Some (([], Some e), s')
         | Some (Inr cfg, s') \<Rightarrow> Some (emitCfg o' cfg, s'))"

section \<open>Notions used in the statements\<close>

text \<open>
  The table of section 4.1 of the specification, as the specification words it: sixteen
  extensions, the last one marked as belonging to the ipx-only mode.
\<close>

definition spec_tag_table :: tag_map where
  "spec_tag_table =
     [(''.v'', ''VERILOG_FILE''),
      (''.sv'', ''SYSTEMVERILOG_FILE''),
      (''.vh'', ''SYSTEMVERILOG_FILE''),
      (''.svh'', ''SYSTEMVERILOG_FILE''),
      (''.vhd'', ''VHDL_FILE''),
      (''.vhdl'', ''VHDL_FILE''),
      (''.sdc'', ''SDC_FILE''),
      (''.qsys'', ''QSYS_FILE''),
      (''.ip'', ''IP_FILE''),
      (''.qip'', ''QIP_FILE''),
      (''.json'', ''MISC_FILE''),
      (''.tcl'', ''SOURCE_TCL_SCRIPT_FILE''),
      (''.stp'', ''USE_SIGNALTAP_FILE''),
      (''.hex'', ''MIF_FILE''),
      (''.mif'', ''MIF_FILE''),
      (''.ipx'', ''IPX_FILE'')]"

text \<open>An extension is known when some table of the tool has it.\<close>

definition all_tag_maps :: "tag_map list" where
  "all_tag_maps =
     [quartus_tag_map, qsys_tag_map, tcl_tag_map, qsys_ipx_tag_map, json_tag_map,
      sim_vlog_tag_map, sim_vhdl_tag_map]"

definition known_ext :: "string \<Rightarrow> bool" where
  "known_ext ext = list_ex (in_map ext) all_tag_maps"

text \<open>
  A source-file entry is one that reaches the last branch of the emission loop: it does
  not begin with \<open>+\<close> and is not one of the \<open>SI:\<close>, \<open>SI_VLOG:\<close>, \<open>SI_VHDL:\<close>,
  \<open>QI:\<close> forms.
\<close>

definition is_source_entry :: "string \<Rightarrow> bool" where
  "is_source_entry c =
     (take 1 c \<noteq> ''+'' \<and>
      (case split_once (CHR '':'') c of
         None \<Rightarrow> True
       | Some (cmd, v) \<Rightarrow> cmd \<notin> set [''SI'', ''SI_VLOG'', ''SI_VHDL'', ''QI'']))"

text \<open>The table that the emission loop consults for source files under each flag.\<close>

definition mode_table :: "target_flag \<Rightarrow> tag_map" where
  "mode_table tf =
     (case tf of
        Sim \<Rightarrow> sim_vlog_tag_map
      | SimVlog \<Rightarrow> sim_vlog_tag_map
      | SimVhdl \<Rightarrow> sim_vhdl_tag_map
      | Qsf \<Rightarrow> quartus_tag_map
      | Qsys \<Rightarrow> qsys_tag_map
      | Tcl \<Rightarrow> tcl_tag_map
      | Ipx \<Rightarrow> qsys_ipx_tag_map
      | Json \<Rightarrow> json_tag_map)"

text \<open>
  Plain synthesis: no simulation flag and no file-type filter (the tool never reads
  \<^verbatim>\<open>opts.qsf\<close>; synthesis is what remains when no other flag is given).
\<close>

definition synthesis_mode :: "opts \<Rightarrow> bool" where
  "synthesis_mode o' =
     (\<not> sim o' \<and> \<not> sim_vlog o' \<and> \<not> sim_vhdl o' \<and> \<not> file_type_filter o')"

text \<open>
  The components that \<^verbatim>\<open>normpath\<close> keeps for an absolute path, the number of leading
  slashes it keeps, and what \<^verbatim>\<open>abspath\<close> normalizes.
\<close>

definition norm_comps :: "string \<Rightarrow> string list" where
  "norm_comps p = foldl (norm_step True) [] (split_sep (CHR ''/'') p)"

definition slashes :: "string \<Rightarrow> nat" where
  "slashes p =
     (if take 1 p = ''/''
      then (if take 2 p = ''//'' \<and> take 3 p \<noteq> ''///'' then 2 else 1)
      else 0)"

text \<open>Components as normalization leaves them: not empty, without \<open>/\<close>, neither \<open>.\<close> nor \<open>..\<close>.\<close>

definition normal_comps :: "string list \<Rightarrow> bool" where
  "normal_comps xs =
     (\<forall>x\<in>set xs. x \<noteq> [] \<and> CHR ''/'' \<notin> set x \<and> x \<noteq> ''.'' \<and> x \<noteq> ''..'')"

definition full_path :: "world \<Rightarrow> string \<Rightarrow> string" where
  "full_path w p = (if take 1 p \<noteq> ''/'' then path_join (cwd w) p else p)"

text \<open>The relative path that \<^verbatim>\<open>relpath\<close> builds from the components of start and path.\<close>

definition rel_of :: "string list \<Rightarrow> string list \<Rightarrow> string" where
  "rel_of S P =
     (let i = length (commonprefix S P);
          rl = replicate (length S - i) ''..'' @ drop i P
      in if rl = [] then ''.'' else join_sep (CHR ''/'') rl)"

text \<open>
  The prefix and the path that \<^verbatim>\<open>fixRelPath\<close> reads in an entry, and the entries it reads
  as a plain file path (no prefix, no \<open>cmd:\<close> form, not a directory).
\<close>

definition entry_prefix :: "world \<Rightarrow> string \<Rightarrow> string \<Rightarrow> string" where
  "entry_prefix w config_dir c =
     (if take 8 c = ''+incdir+'' then ''+incdir+''
      else (case split_once (CHR '':'') c of
              None \<Rightarrow> (if isdir w (path_join config_dir c) then ''+incdir+'' else [])
            | Some (a, b) \<Rightarrow> a @ '':''))"

definition entry_path :: "string \<Rightarrow> string" where
  "entry_path c =
     (if take 8 c = ''+incdir+'' then drop 8 c
      else (case split_once (CHR '':'') c of None \<Rightarrow> c | Some (a, b) \<Rightarrow> b))"

definition bare_file :: "world \<Rightarrow> string \<Rightarrow> string \<Rightarrow> bool" where
  "bare_file w config_dir c =
     (c \<noteq> [] \<and> take 8 c \<noteq> ''+define+'' \<and> take 8 c \<noteq> ''+incdir+'' \<and>
      CHR '':'' \<notin> set c \<and> \<not> isdir w (path_join config_dir c))"



text \<open>
  What a step of the parser may do to the family variable and to the number of times the
  command has been run, from state \<open>s\<close> to state \<open>s'\<close>: a set variable keeps its
  value and the command is not run; an unset variable either stays unset with the command
  not run, or the command has been run once and, if the step succeeded, the variable is
  set.
\<close>

definition fam_step :: "bool \<Rightarrow> state \<Rightarrow> state \<Rightarrow> bool" where
  "fam_step ok s s' =
     (case env s FAMILY of
        Some v \<Rightarrow> env s' FAMILY = Some v \<and> fam_calls s' = fam_calls s
      | None \<Rightarrow>
          (env s' FAMILY = None \<and> fam_calls s' = fam_calls s) \<or>
          ((ok \<longrightarrow> env s' FAMILY \<noteq> None) \<and> fam_calls s' = fam_calls s + 1))"


text \<open>
  A small concrete world for the examples: a manifest \<open>proj/a.txt\<close> that includes
  \<open>proj/sub/b.txt\<close>, a manifest that mentions the FPGA family twice, a manifest with
  an inline comment, a release library under \<open>/lib\<close>, and the working directory
  \<open>/w\<close>.
\<close>

definition example_files :: "string \<Rightarrow> string list option" where
  "example_files p =
     (if p = ''proj/a.txt'' then Some [''C:sub/b.txt'' @ [newline]]
      else if p = ''proj/sub/b.txt'' then Some [''top.sv'' @ [newline]]
      else if p = ''fam.txt'' then
        Some [''$OPAE_PLATFORM_FPGA_FAMILY/x.sv'' @ [newline],
              ''${OPAE_PLATFORM_FPGA_FAMILY}/y.sv'' @ [newline]]
      else if p = ''cmt.txt'' then Some [''top.sv  # the top level'' @ [newline]]
      else if p = ''/lib/fme-platform-class.txt'' then Some [''cls'' @ [newline]]
      else None)"

definition example_world :: world where
  "example_world =
     \<lparr>files = example_files,
      isdir = (\<lambda>p. p = ''proj/inc''),
      path_exists = (\<lambda>p. p = ''/lib/fme-platform-class.txt''),
      cwd = ''/w'',
      fam_cmd = (\<lambda>c. ([''A10'' @ [newline]], 0)),
      quartus_cmd = ([''Version 18.1.0 Build 222'' @ [newline]], 0),
      re_sub_major = (\<lambda>l. ''18''),
      re_sub_major_minor = (\<lambda>l. ''18.1'')\<rparr>"

definition example_state :: state where
  "example_state = \<lparr>env = Map.empty, fam_calls = 0, quartus_calls = 0, stderr = []\<rparr>"

section \<open>Tag lookup\<close>

lemma validateTag_known:
  "validateTag f =
     (if known_ext (file_ext f) then Inr () else Inl (UnrecognizedExtension (file_ext f) f))"
  by (simp add: validateTag_def known_ext_def all_tag_maps_def Let_def)

lemma lookupTag_map_of: "lookupTag f db = map_of db (file_ext f)"
  by (simp add: lookupTag_def in_map_def Let_def)

lemma known_ext_iff: "known_ext e \<longleftrightarrow> e \<in> set (map fst spec_tag_table)"
  by (auto simp add: known_ext_def all_tag_maps_def in_map_def spec_tag_table_def
      quartus_tag_map_def qsys_tag_map_def tcl_tag_map_def qsys_ipx_tag_map_def
      json_tag_map_def sim_vlog_tag_map_def sim_vhdl_tag_map_def)

lemmas ext_eval = file_ext_def splitext_def lower_def lower_char_def

text \<open>
  C1, as stated: every one of the sixteen extensions of the specification's table is
  resolved to its documented tag by lookup in the full synthesis table. The extension
  \<open>.ipx\<close> is in the specification's table and not in \<^verbatim>\<open>quartus_tag_map\<close>.
\<close>

theorem C1_ipx_not_in_full_table:
  "file_ext ''a.ipx'' \<in> set (map fst spec_tag_table) \<and>
   map_of spec_tag_table (file_ext ''a.ipx'') = Some ''IPX_FILE'' \<and>
   lookupTag ''a.ipx'' quartus_tag_map = None"
proof -
  have e: "file_ext ''a.ipx'' = ''.ipx''" by code_simp
  show ?thesis
    unfolding lookupTag_map_of e by (simp add: spec_tag_table_def quartus_tag_map_def)
qed

text \<open>
  C1, amended: the full synthesis table has fifteen extensions, and for each of them
  lookup returns the documented tag; \<open>.ipx\<close> is resolved by the ipx table only (lookup
  in the full synthesis table returns nothing, and validation accepts it); a file whose
  extension is in no table fails validation with the unrecognized-extension error.
\<close>

theorem C1_tag_lookup:
  "length quartus_tag_map = 15 \<and>
   (file_ext f \<in> set (map fst spec_tag_table) \<and> file_ext f \<noteq> ''.ipx'' \<longrightarrow>
      lookupTag f quartus_tag_map = map_of spec_tag_table (file_ext f) \<and>
      lookupTag f quartus_tag_map \<noteq> None) \<and>
   (file_ext f = ''.ipx'' \<longrightarrow>
      lookupTag f quartus_tag_map = None \<and>
      lookupTag f qsys_ipx_tag_map = Some ''IPX_FILE'' \<and>
      validateTag f = Inr ()) \<and>
   (\<not> known_ext (file_ext f) \<longrightarrow>
      validateTag f = Inl (UnrecognizedExtension (file_ext f) f))"
proof -
  have a: "length quartus_tag_map = 15"
    by (simp add: quartus_tag_map_def)
  have b: "lookupTag f quartus_tag_map = map_of spec_tag_table (file_ext f) \<and>
           lookupTag f quartus_tag_map \<noteq> None"
    if "file_ext f \<in> set (map fst spec_tag_table)" "file_ext f \<noteq> ''.ipx''"
    using that unfolding lookupTag_map_of
    by (auto simp add: spec_tag_table_def quartus_tag_map_def)
  have c: "lookupTag f quartus_tag_map = None \<and>
           lookupTag f qsys_ipx_tag_map = Some ''IPX_FILE'' \<and> validateTag f = Inr ()"
    if "file_ext f = ''.ipx''"
    using that unfolding lookupTag_map_of validateTag_known
    by (simp add: quartus_tag_map_def qsys_ipx_tag_map_def known_ext_def all_tag_maps_def
        in_map_def)
  have d: "validateTag f = Inl (UnrecognizedExtension (file_ext f) f)"
    if "\<not> known_ext (file_ext f)"
    using that by (simp add: validateTag_known)
  from a b c d show ?thesis by blast
qed

theorem C1_tag_lookup_witness:
  "lookupTag ''rtl/Top.SV'' quartus_tag_map = Some ''SYSTEMVERILOG_FILE'' \<and>
   lookupTag ''ip/core.ipx'' quartus_tag_map = None \<and>
   lookupTag ''ip/core.ipx'' qsys_ipx_tag_map = Some ''IPX_FILE'' \<and>
   validateTag ''ip/core.ipx'' = Inr () \<and>
   validateTag ''weird.xyz'' = Inl (UnrecognizedExtension ''.xyz'' ''weird.xyz'')"
proof -
  have e1: "file_ext ''rtl/Top.SV'' = ''.sv''" by code_simp
  have e2: "file_ext ''ip/core.ipx'' = ''.ipx''" by code_simp
  have e3: "file_ext ''weird.xyz'' = ''.xyz''" by code_simp
  have k3: "\<not> known_ext ''.xyz''" by (simp add: known_ext_iff spec_tag_table_def)
  show ?thesis
    using C1_tag_lookup [of "''rtl/Top.SV''"] C1_tag_lookup [of "''ip/core.ipx''"]
      C1_tag_lookup [of "''weird.xyz''"] k3
    unfolding e1 e2 e3
    by (simp add: spec_tag_table_def)
qed

section \<open>Emission\<close>

lemma emitDefines_append: "emitDefines o' (xs @ ys) = emitDefines o' xs @ emitDefines o' ys"
  by (induction xs) simp_all

lemma emitIncdirs_append: "emitIncdirs o' (xs @ ys) = emitIncdirs o' xs @ emitIncdirs o' ys"
  by (induction xs) simp_all

lemma emitSources_skip:
  "emitEntry o' c = ([], None) \<Longrightarrow> emitSources o' (xs @ c # ys) = emitSources o' (xs @ ys)"
  by (induction xs) (simp_all split: prod.splits option.splits)

lemma emitCfg_skip:
  assumes "emitEntry o' c = ([], None)" "take 8 c \<noteq> ''+define+''" "take 8 c \<noteq> ''+incdir+''"
  shows "emitCfg o' (xs @ c # ys) = emitCfg o' (xs @ ys)"
  using assms by (simp add: emitCfg_def emitDefines_append emitIncdirs_append emitSources_skip)

lemma plus_entry: "take 1 c = ''+'' \<Longrightarrow> emitEntry o' c = ([], None)"
  by (simp add: emitEntry_def)

lemma source_entry_not_prefixed:
  "is_source_entry c \<Longrightarrow> take 8 c \<noteq> ''+define+'' \<and> take 8 c \<noteq> ''+incdir+''"
  by (cases c) (auto simp: is_source_entry_def)

lemma emitEntry_source: "is_source_entry c \<Longrightarrow> emitEntry o' c = emitSourceFile o' c"
  unfolding is_source_entry_def emitEntry_def
  by (auto split: option.splits simp: Let_def)

lemma synthesis_mode_args:
  "tf = None \<or> tf = Some Qsf \<Longrightarrow> synthesis_mode (sim_synonyms (parse_args w file tf pf q l))"
  by (auto simp: synthesis_mode_def sim_synonyms_def parse_args_def file_type_filter_def)

lemma emitEntry_QI:
  "synthesis_mode o' \<Longrightarrow> emitEntry o' (''QI:'' @ v) = ([source_line (rel_prefix o') v], None)"
  by (simp add: emitEntry_def Let_def split_once_def synthesis_mode_def)

lemma split_once_Some:
  assumes "split_once ch s = Some (a, b)"
  shows "s = a @ ch # b"
proof -
  from assms have m: "ch \<in> set s" and a: "a = takeWhile (\<lambda>c. c \<noteq> ch) s"
    and b: "b = tl (dropWhile (\<lambda>c. c \<noteq> ch) s)"
    by (auto simp: split_once_def split: if_splits)
  from m have ne: "dropWhile (\<lambda>c. c \<noteq> ch) s \<noteq> []" by simp
  then have "hd (dropWhile (\<lambda>c. c \<noteq> ch) s) = ch" using hd_dropWhile[OF ne] by simp
  with ne have "dropWhile (\<lambda>c. c \<noteq> ch) s = ch # b"
    unfolding b by (cases "dropWhile (\<lambda>c. c \<noteq> ch) s") auto
  then show ?thesis using takeWhile_dropWhile_id[of "\<lambda>c. c \<noteq> ch" s] a by simp
qed

lemma tcl_tag_iff:
  "lookupTag c quartus_tag_map = Some ''SOURCE_TCL_SCRIPT_FILE'' \<longleftrightarrow> file_ext c = ''.tcl''"
  unfolding lookupTag_map_of
  by (auto simp: quartus_tag_map_def split: if_splits)

lemma emitSourceFile_tcl:
  "synthesis_mode o' \<Longrightarrow> lookupTag c quartus_tag_map = Some ''SOURCE_TCL_SCRIPT_FILE'' \<Longrightarrow>
   emitSourceFile o' c = ([], None)"
  unfolding emitSourceFile_def validateTag_def synthesis_mode_def file_type_filter_def
    lookupTag_def
  by (simp add: Let_def split: if_splits)

lemma emitSourceFile_out:
  assumes "synthesis_mode o'" "fst (emitSourceFile o' e) \<noteq> []"
  shows "\<exists>t. lookupTag e quartus_tag_map = Some t \<and> t \<noteq> ''SOURCE_TCL_SCRIPT_FILE'' \<and>
             emitSourceFile o' e = ([assignment_line t (rel_prefix o') e], None)"
proof (cases "validateTag e")
  case (Inl x)
  then show ?thesis using assms(2) by (simp add: emitSourceFile_def)
next
  case (Inr u)
  have fl: "\<not> sim_vlog o'" "\<not> sim_vhdl o'" "\<not> json o'" "\<not> qsys o'" "\<not> ipx o'" "\<not> tcl o'"
    using assms(1) by (simp_all add: synthesis_mode_def file_type_filter_def)
  show ?thesis
  proof (cases "lookupTag e quartus_tag_map")
    case None
    then show ?thesis using assms(2) Inr fl by (simp add: emitSourceFile_def)
  next
    case (Some t)
    then show ?thesis using assms(2) Inr fl by (simp add: emitSourceFile_def split: if_splits)
  qed
qed

lemma emitEntry_not_source:
  assumes "synthesis_mode o'" "\<not> is_source_entry e" "fst (emitEntry o' e) \<noteq> []"
  shows "\<exists>v. e = ''QI:'' @ v"
proof -
  have np: "take 1 e \<noteq> ''+''" using assms(3) by (auto simp: emitEntry_def)
  with assms(2) obtain cmd v where sp: "split_once (CHR '':'') e = Some (cmd, v)"
    and cm: "cmd = ''SI'' \<or> cmd = ''SI_VLOG'' \<or> cmd = ''SI_VHDL'' \<or> cmd = ''QI''"
    unfolding is_source_entry_def by (cases "split_once (CHR '':'') e") auto
  have fl: "\<not> sim_vlog o'" "\<not> sim_vhdl o'" "\<not> tcl o'"
    using assms(1) by (simp_all add: synthesis_mode_def file_type_filter_def)
  have "cmd = ''QI''"
  proof (rule ccontr)
    assume "cmd \<noteq> ''QI''"
    with cm consider "cmd = ''SI'' \<or> cmd = ''SI_VLOG''" | "cmd = ''SI_VHDL''" by blast
    then have "emitEntry o' e = ([], None)"
    proof cases
      case 1
      then show ?thesis using np sp fl unfolding emitEntry_def Let_def by simp
    next
      case 2
      then show ?thesis using np sp fl unfolding emitEntry_def Let_def by simp
    qed
    then show False using assms(3) by simp
  qed
  then have "e = ''QI:'' @ v" using split_once_Some[OF sp] by simp
  then show ?thesis by blast
qed

lemma emitDefines_synth:
  "synthesis_mode o' \<Longrightarrow>
   emitDefines o' cfg = map macro_line (filter (\<lambda>c. take 8 c = ''+define+'') cfg)"
  by (induction cfg) (simp_all add: synthesis_mode_def)

lemma emitIncdirs_synth:
  "synthesis_mode o' \<Longrightarrow>
   emitIncdirs o' cfg =
     map (search_path_line (rel_prefix o')) (filter (\<lambda>c. take 8 c = ''+incdir+'') cfg)"
  by (induction cfg) (simp_all add: synthesis_mode_def)

lemma emitSources_lines:
  "l \<in> set (fst (emitSources o' cfg)) \<Longrightarrow> \<exists>c\<in>set cfg. l \<in> set (fst (emitEntry o' c))"
proof (induction cfg)
  case Nil
  then show ?case by simp
next
  case (Cons c cfg)
  then show ?case
    by (cases "emitEntry o' c"; cases "snd (emitEntry o' c)"; cases "emitSources o' cfg") auto
qed

lemma emitEntry_out:
  assumes "synthesis_mode o'" "l \<in> set (fst (emitEntry o' c))"
  shows "(\<exists>v. c = ''QI:'' @ v \<and> l = source_line (rel_prefix o') v) \<or>
         (is_source_entry c \<and>
          (\<exists>t. lookupTag c quartus_tag_map = Some t \<and> l = assignment_line t (rel_prefix o') c))"
proof (cases "is_source_entry c")
  case True
  then have "fst (emitSourceFile o' c) \<noteq> []" using assms(2) by (auto simp: emitEntry_source)
  from emitSourceFile_out[OF assms(1) this] True assms(2) show ?thesis
    by (auto simp: emitEntry_source)
next
  case False
  have "fst (emitEntry o' c) \<noteq> []" using assms(2) by auto
  from emitEntry_not_source[OF assms(1) False this] obtain v where "c = ''QI:'' @ v" by blast
  then show ?thesis using emitEntry_QI[OF assms(1), of v] assms(2) by auto
qed

text \<open>
  C10: an entry that begins with \<open>+\<close> and starts with neither \<open>+define+\<close> nor
  \<open>+incdir+\<close> produces no output line and no error, whatever the options are: the
  body of the emission loop returns nothing for it without validating an extension, and
  the whole emission is the same as if the entry were not in the list.
\<close>

theorem C10_plus_entry_skipped:
  assumes "take 1 c = ''+''" "take 8 c \<noteq> ''+define+''" "take 8 c \<noteq> ''+incdir+''"
  shows "emitEntry o' c = ([], None) \<and> emitCfg o' (xs @ c # ys) = emitCfg o' (xs @ ys)"
  using assms emitCfg_skip[OF plus_entry] by (simp add: plus_entry)

theorem C10_plus_entry_skipped_witness:
  "emitEntry (parse_args example_world ''m.txt'' None None False None) ''+libext+.v'' =
     ([], None) \<and>
   emitCfg (parse_args example_world ''m.txt'' None None False None)
     ([''a.sv''] @ ''+libext+.v'' # [''b.xyz'']) =
   emitCfg (parse_args example_world ''m.txt'' None None False None)
     ([''a.sv''] @ [''b.xyz''])"
  by (rule C10_plus_entry_skipped) simp_all

text \<open>
  C5: under each of the flags \<open>--sim\<close>, \<open>--sim-vlog\<close>, \<open>--sim-vhdl\<close>, \<open>--qsys\<close>,
  \<open>--tcl\<close>, \<open>--ipx\<close> and \<open>--json\<close>, a source-file entry whose extension is in some
  table and not in the table of that mode produces no output line and no error, and the
  whole emission is the same as if the entry were not in the list.
\<close>

theorem C5_absent_from_mode_table_dropped:
  assumes "tf \<noteq> Qsf" "o' = sim_synonyms (parse_args w file (Some tf) pf q l)"
    "is_source_entry c" "known_ext (file_ext c)" "\<not> in_map (file_ext c) (mode_table tf)"
  shows "emitEntry o' c = ([], None) \<and> emitCfg o' (xs @ c # ys) = emitCfg o' (xs @ ys)"
proof -
  have "emitSourceFile o' c = ([], None)"
    using assms(1,2,4,5) unfolding emitSourceFile_def validateTag_known
    by (cases tf)
      (simp_all add: sim_synonyms_def parse_args_def mode_table_def lookupTag_def truthy_def)
  then have e: "emitEntry o' c = ([], None)"
    using assms(3) by (simp add: emitEntry_source)
  show ?thesis
    using e emitCfg_skip[OF e] source_entry_not_prefixed[OF assms(3)] by simp
qed

theorem C5_absent_from_mode_table_dropped_witness:
  "emitEntry (sim_synonyms (parse_args example_world ''m.txt'' (Some Qsys) None False None)) ''top.sv''
     = ([], None) \<and>
   emitCfg (sim_synonyms (parse_args example_world ''m.txt'' (Some Qsys) None False None))
     ([''a.qsys''] @ ''top.sv'' # [''b.ip'']) =
   emitCfg (sim_synonyms (parse_args example_world ''m.txt'' (Some Qsys) None False None))
     ([''a.qsys''] @ [''b.ip''])"
proof -
  have e: "file_ext ''top.sv'' = ''.sv''" by code_simp
  have s: "is_source_entry ''top.sv''" by (simp add: is_source_entry_def split_once_def)
  have k: "known_ext (file_ext ''top.sv'')"
    unfolding e by (simp add: known_ext_iff spec_tag_table_def)
  have n: "\<not> in_map (file_ext ''top.sv'') (mode_table Qsys)"
    unfolding e by (simp add: in_map_def mode_table_def qsys_tag_map_def)
  show ?thesis
    by (rule C5_absent_from_mode_table_dropped [OF _ refl s k n]) simp
qed

text \<open>
  C6: in plain synthesis mode a source-file entry tagged \<open>SOURCE_TCL_SCRIPT_FILE\<close>
  produces no output line (and no error); a \<open>QI:\<close> entry produces a source command;
  and an entry with extension \<open>.tcl\<close> that produces any output is a \<open>QI:\<close> entry.
\<close>

theorem C6_bare_tcl_not_emitted:
  assumes "synthesis_mode o'"
  shows "(is_source_entry c \<and> lookupTag c quartus_tag_map = Some ''SOURCE_TCL_SCRIPT_FILE'' \<longrightarrow>
            emitEntry o' c = ([], None) \<and> emitCfg o' (xs @ c # ys) = emitCfg o' (xs @ ys)) \<and>
         emitEntry o' (''QI:'' @ v) = ([source_line (rel_prefix o') v], None) \<and>
         (fst (emitEntry o' e) \<noteq> [] \<and> file_ext e = ''.tcl'' \<longrightarrow> (\<exists>v'. e = ''QI:'' @ v'))"
proof -
  have a: "emitEntry o' c = ([], None) \<and> emitCfg o' (xs @ c # ys) = emitCfg o' (xs @ ys)"
    if s: "is_source_entry c" and t: "lookupTag c quartus_tag_map = Some ''SOURCE_TCL_SCRIPT_FILE''"
  proof -
    have e: "emitEntry o' c = ([], None)"
      using emitSourceFile_tcl[OF assms t] s by (simp add: emitEntry_source)
    show ?thesis using e emitCfg_skip[OF e] source_entry_not_prefixed[OF s] by simp
  qed
  have b: "\<exists>v'. e = ''QI:'' @ v'" if ne: "fst (emitEntry o' e) \<noteq> []" and t: "file_ext e = ''.tcl''"
  proof (cases "is_source_entry e")
    case True
    then have "fst (emitSourceFile o' e) \<noteq> []" using ne by (simp add: emitEntry_source)
    moreover have "lookupTag e quartus_tag_map = Some ''SOURCE_TCL_SCRIPT_FILE''"
      using t by (simp add: tcl_tag_iff)
    ultimately show ?thesis using emitSourceFile_out[OF assms, of e] by auto
  next
    case False
    then show ?thesis using emitEntry_not_source[OF assms _ ne] by blast
  qed
  from a b emitEntry_QI[OF assms] show ?thesis by blast
qed

theorem C6_bare_tcl_not_emitted_witness:
  "emitEntry (sim_synonyms (parse_args example_world ''m.txt'' (Some Qsf) None False None)) ''setup.tcl''
     = ([], None) \<and>
   emitEntry (sim_synonyms (parse_args example_world ''m.txt'' (Some Qsf) None False None)) ''QI:setup.tcl''
     = ([''source '' @ [dquote] @ ''${THIS_DIR}/setup.tcl'' @ [dquote]], None)"
proof -
  let ?o = "sim_synonyms (parse_args example_world ''m.txt'' (Some Qsf) None False None)"
  have m: "synthesis_mode ?o" by (simp add: synthesis_mode_args)
  have e: "file_ext ''setup.tcl'' = ''.tcl''" by code_simp
  have s: "is_source_entry ''setup.tcl''" by (simp add: is_source_entry_def split_once_def)
  have t: "lookupTag ''setup.tcl'' quartus_tag_map = Some ''SOURCE_TCL_SCRIPT_FILE''"
    using e by (simp add: tcl_tag_iff)
  have p: "rel_prefix ?o = ''${THIS_DIR}/''"
    by (simp add: rel_prefix_def sim_synonyms_def parse_args_def file_type_filter_def)
  show ?thesis
    using C6_bare_tcl_not_emitted [OF m, of "''setup.tcl''" "[]" "[]" "''setup.tcl''" "''QI:setup.tcl''"] s t p
    by (simp add: source_line_def)
qed

text \<open>
  C3: in plain synthesis mode the output is the header (the \<open>THIS_DIR\<close> line, unless
  paths are absolute), then one macro assignment for every \<open>+define+\<close> entry, then one
  search-path assignment for every \<open>+incdir+\<close> entry, then the lines of the third loop,
  each of which is a source command of a \<open>QI:\<close> entry or a tagged assignment of a
  source file. The manifest \<open>+define+FOO\<close>, \<open>+incdir+../rtl\<close>, \<open>top.sv\<close>,
  \<open>QI:setup.tcl\<close> gives, after the header and in this order, a macro assignment, a
  search-path assignment, a \<open>SYSTEMVERILOG_FILE\<close> assignment for \<open>top.sv\<close> and a
  source command for \<open>setup.tcl\<close>.
\<close>

theorem C3_synthesis_order:
  assumes "synthesis_mode o'"
  shows "fst (emitCfg o' cfg) =
           emitHeader o' @
           map macro_line (filter (\<lambda>c. take 8 c = ''+define+'') cfg) @
           map (search_path_line (rel_prefix o')) (filter (\<lambda>c. take 8 c = ''+incdir+'') cfg) @
           fst (emitSources o' cfg) \<and>
         (\<forall>l\<in>set (fst (emitSources o' cfg)). \<exists>c\<in>set cfg.
            (\<exists>v. c = ''QI:'' @ v \<and> l = source_line (rel_prefix o') v) \<or>
            (is_source_entry c \<and>
             (\<exists>t. lookupTag c quartus_tag_map = Some t \<and>
                  l = assignment_line t (rel_prefix o') c))) \<and>
         emitCfg o' [''+define+FOO'', ''+incdir+../rtl'', ''top.sv'', ''QI:setup.tcl''] =
           (emitHeader o' @
            [macro_line ''+define+FOO'',
             search_path_line (rel_prefix o') ''+incdir+../rtl'',
             assignment_line ''SYSTEMVERILOG_FILE'' (rel_prefix o') ''top.sv'',
             source_line (rel_prefix o') ''setup.tcl''], None)"
proof -
  have nf: "\<not> file_type_filter o'" using assms by (simp add: synthesis_mode_def)
  have a: "fst (emitCfg o' cfg) =
           emitHeader o' @
           map macro_line (filter (\<lambda>c. take 8 c = ''+define+'') cfg) @
           map (search_path_line (rel_prefix o')) (filter (\<lambda>c. take 8 c = ''+incdir+'') cfg) @
           fst (emitSources o' cfg)"
    using nf by (simp add: emitCfg_def emitDefines_synth[OF assms] emitIncdirs_synth[OF assms]
        split: prod.splits)
  have b: "\<exists>c\<in>set cfg.
            (\<exists>v. c = ''QI:'' @ v \<and> l = source_line (rel_prefix o') v) \<or>
            (is_source_entry c \<and>
             (\<exists>t. lookupTag c quartus_tag_map = Some t \<and>
                  l = assignment_line t (rel_prefix o') c))"
    if "l \<in> set (fst (emitSources o' cfg))" for l
    using emitSources_lines[OF that] emitEntry_out[OF assms] by blast
  have e: "file_ext ''top.sv'' = ''.sv''" by code_simp
  have s: "is_source_entry ''top.sv''" by (simp add: is_source_entry_def split_once_def)
  have fl: "\<not> sim_vlog o'" "\<not> sim_vhdl o'" "\<not> json o'" "\<not> qsys o'" "\<not> ipx o'" "\<not> tcl o'"
    using assms by (simp_all add: synthesis_mode_def file_type_filter_def)
  have t: "emitEntry o' ''top.sv'' =
             ([assignment_line ''SYSTEMVERILOG_FILE'' (rel_prefix o') ''top.sv''], None)"
    unfolding emitEntry_source[OF s] emitSourceFile_def validateTag_known lookupTag_map_of e
    using fl by (simp add: known_ext_iff spec_tag_table_def quartus_tag_map_def)
  have q: "emitEntry o' ''QI:setup.tcl'' = ([source_line (rel_prefix o') ''setup.tcl''], None)"
    using emitEntry_QI[OF assms, of "''setup.tcl''"] by simp
  have p1: "emitEntry o' ''+define+FOO'' = ([], None)" by (simp add: plus_entry)
  have p2: "emitEntry o' ''+incdir+../rtl'' = ([], None)" by (simp add: plus_entry)
  have c: "emitCfg o' [''+define+FOO'', ''+incdir+../rtl'', ''top.sv'', ''QI:setup.tcl''] =
           (emitHeader o' @
            [macro_line ''+define+FOO'',
             search_path_line (rel_prefix o') ''+incdir+../rtl'',
             assignment_line ''SYSTEMVERILOG_FILE'' (rel_prefix o') ''top.sv'',
             source_line (rel_prefix o') ''setup.tcl''], None)"
    using nf fl by (simp add: emitCfg_def t q p1 p2)
  from a b c show ?thesis by blast
qed

theorem C3_synthesis_order_witness:
  "emitCfg (sim_synonyms (parse_args example_world ''m.txt'' (Some Qsf) None False None))
     [''+define+FOO'', ''+incdir+../rtl'', ''top.sv'', ''QI:setup.tcl''] =
   ([this_dir_line,
     ''set_global_assignment -name VERILOG_MACRO '' @ [dquote] @ ''FOO'' @ [dquote],
     ''set_global_assignment -name SEARCH_PATH '' @ [dquote] @ ''${THIS_DIR}/../rtl'' @ [dquote],
     ''set_global_assignment -name SYSTEMVERILOG_FILE '' @ [dquote] @ ''${THIS_DIR}/top.sv'' @
       [dquote],
     ''source '' @ [dquote] @ ''${THIS_DIR}/setup.tcl'' @ [dquote]], None)"
proof -
  let ?o = "sim_synonyms (parse_args example_world ''m.txt'' (Some Qsf) None False None)"
  have m: "synthesis_mode ?o" by (simp add: synthesis_mode_args)
  have p: "rel_prefix ?o = ''${THIS_DIR}/''"
    by (simp add: rel_prefix_def sim_synonyms_def parse_args_def file_type_filter_def)
  have h: "emitHeader ?o = [this_dir_line]"
    by (simp add: emitHeader_def sim_synonyms_def parse_args_def)
  show ?thesis
    using C3_synthesis_order [OF m, of "[]"]
    unfolding p h
    by (simp add: macro_line_def search_path_line_def assignment_line_def source_line_def)
qed

section \<open>Path normalization\<close>

lemma split_sep_nonempty: "split_sep sep s \<noteq> []"
  by (induction s) (auto split: list.splits)

lemma split_sep_append:
  "split_sep sep (a @ sep # b) = split_sep sep a @ split_sep sep b"
proof (induction a)
  case Nil
  then show ?case by simp
next
  case (Cons x a)
  then show ?case
    using split_sep_nonempty[of sep a] by (cases "split_sep sep a") auto
qed

lemma split_sep_nosep: "sep \<notin> set x \<Longrightarrow> split_sep sep x = [x]"
  by (induction x) auto

lemma split_sep_elems: "x \<in> set (split_sep sep s) \<Longrightarrow> sep \<notin> set x"
proof (induction s arbitrary: x)
  case Nil
  then show ?case by simp
next
  case (Cons c s)
  then show ?case
    by (cases "split_sep sep s") (auto split: if_splits)
qed

lemma split_join:
  "xs \<noteq> [] \<Longrightarrow> \<forall>x\<in>set xs. sep \<notin> set x \<Longrightarrow> split_sep sep (join_sep sep xs) = xs"
proof (induction sep xs rule: join_sep.induct)
  case (1 sep)
  then show ?case by simp
next
  case (2 sep x)
  then show ?case by (simp add: split_sep_nosep)
next
  case (3 sep x y ys)
  then show ?case by (simp add: split_sep_append split_sep_nosep)
qed

lemma split_sep_replicate:
  "split_sep sep (replicate k sep @ s) = replicate k [] @ split_sep sep s"
  by (induction k) auto

lemma set_split_sep: "set (concat (split_sep sep s)) \<subseteq> set s"
proof (induction s)
  case Nil
  then show ?case by simp
next
  case (Cons c s)
  then show ?case by (cases "split_sep sep s") (auto split: if_splits)
qed

lemma normal_comps_append [simp]:
  "normal_comps (xs @ ys) \<longleftrightarrow> normal_comps xs \<and> normal_comps ys"
  by (auto simp: normal_comps_def)

lemma normal_comps_Nil [simp]: "normal_comps []"
  by (simp add: normal_comps_def)

lemma normal_comps_butlast: "normal_comps xs \<Longrightarrow> normal_comps (butlast xs)"
  by (auto simp: normal_comps_def dest: in_set_butlastD)

lemma normal_last: "normal_comps xs \<Longrightarrow> xs \<noteq> [] \<Longrightarrow> last xs \<noteq> ''..''"
  using last_in_set[of xs] by (auto simp: normal_comps_def)

lemma norm_step_normal:
  "normal_comps acc \<Longrightarrow> CHR ''/'' \<notin> set c \<Longrightarrow> normal_comps (norm_step True acc c)"
  using normal_last[of acc]
  by (auto simp: norm_step_def normal_comps_butlast) (auto simp: normal_comps_def)

lemma norm_fold_normal:
  "normal_comps acc \<Longrightarrow> \<forall>x\<in>set cs. CHR ''/'' \<notin> set x \<Longrightarrow>
   normal_comps (foldl (norm_step True) acc cs)"
  by (induction cs arbitrary: acc) (simp_all add: norm_step_normal)

lemma norm_comps_normal: "normal_comps (norm_comps p)"
  unfolding norm_comps_def
  by (rule norm_fold_normal) (auto dest: split_sep_elems)

lemma norm_step_id:
  "normal_comps [c] \<Longrightarrow> norm_step b acc c = acc @ [c]"
  by (simp add: norm_step_def normal_comps_def)

lemma norm_fold_id:
  "normal_comps cs \<Longrightarrow> foldl (norm_step b) acc cs = acc @ cs"
proof (induction cs arbitrary: acc)
  case Nil
  then show ?case by simp
next
  case (Cons c cs)
  have "normal_comps [c]" "normal_comps cs" using Cons.prems by (simp_all add: normal_comps_def)
  then show ?case using Cons.IH[of "acc @ [c]"] by (simp add: norm_step_id)
qed

lemma norm_step_up:
  "normal_comps acc \<Longrightarrow> acc \<noteq> [] \<Longrightarrow> norm_step True acc ''..'' = butlast acc"
  using normal_last[of acc] by (simp add: norm_step_def)

lemma norm_fold_ups:
  "normal_comps acc \<Longrightarrow> k \<le> length acc \<Longrightarrow>
   foldl (norm_step True) acc (replicate k ''..'') = take (length acc - k) acc"
proof (induction k arbitrary: acc)
  case 0
  then show ?case by simp
next
  case (Suc k)
  then have ne: "acc \<noteq> []" by auto
  have "foldl (norm_step True) acc (replicate (Suc k) ''..'')
        = foldl (norm_step True) (butlast acc) (replicate k ''..'')"
    using norm_step_up[OF Suc.prems(1) ne] by simp
  also have "\<dots> = take (length (butlast acc) - k) (butlast acc)"
    using Suc.prems by (intro Suc.IH normal_comps_butlast) simp_all
  also have "\<dots> = take (length acc - Suc k) acc"
    by (simp add: butlast_conv_take)
  finally show ?case .
qed

lemma commonprefix_take:
  "commonprefix xs ys = take (length (commonprefix xs ys)) xs \<and>
   commonprefix xs ys = take (length (commonprefix xs ys)) ys"
  by (induction xs ys rule: commonprefix.induct) auto

lemma commonprefix_le:
  "length (commonprefix xs ys) \<le> length xs \<and> length (commonprefix xs ys) \<le> length ys"
  by (induction xs ys rule: commonprefix.induct) auto

lemma norm_fold_rel:
  assumes "normal_comps S" "normal_comps P" "i = length (commonprefix S P)"
  shows "foldl (norm_step True) S (replicate (length S - i) ''..'' @ drop i P) = P"
proof -
  have le: "i \<le> length S" "i \<le> length P" using commonprefix_le[of S P] assms(3) by auto
  have tk: "take i S = take i P" using commonprefix_take[of S P] assms(3) by metis
  have "foldl (norm_step True) S (replicate (length S - i) ''..'') = take i S"
    using norm_fold_ups[OF assms(1), of "length S - i"] le by simp
  moreover have "normal_comps (drop i P)"
    using assms(2) by (auto simp: normal_comps_def dest: in_set_dropD)
  ultimately show ?thesis
    by (simp add: norm_fold_id tk)
qed

lemma normpath_abs:
  assumes "take 1 p = ''/''"
  shows "normpath p = replicate (slashes p) (CHR ''/'') @ join_sep (CHR ''/'') (norm_comps p)"
    and "1 \<le> slashes p"
proof -
  have ne: "p \<noteq> []" using assms by auto
  show k: "1 \<le> slashes p" using assms by (simp add: slashes_def)
  then have "replicate (slashes p) (CHR ''/'') \<noteq> []" by auto
  then show "normpath p = replicate (slashes p) (CHR ''/'') @ join_sep (CHR ''/'') (norm_comps p)"
    using ne assms k unfolding normpath_def norm_comps_def slashes_def Let_def
    by (simp split: if_splits)
qed

lemma filter_replicate_empty: "filter (\<lambda>x. x \<noteq> []) (replicate k [] @ xs) = filter (\<lambda>x. x \<noteq> []) xs"
  by (induction k) auto

lemma path_comps_join:
  assumes "normal_comps xs"
  shows "path_comps (replicate k (CHR ''/'') @ join_sep (CHR ''/'') xs) = xs"
proof (cases "xs = []")
  case True
  then show ?thesis
    by (simp add: path_comps_def split_sep_replicate[where s="[]", simplified] filter_replicate_empty[where xs="[[]]", simplified])
next
  case False
  have sf: "\<forall>x\<in>set xs. CHR ''/'' \<notin> set x" using assms by (simp add: normal_comps_def)
  have "filter (\<lambda>x. x \<noteq> []) xs = xs" using assms by (auto simp: normal_comps_def intro: filter_True)
  then show ?thesis
    by (simp add: path_comps_def split_sep_replicate filter_replicate_empty split_join[OF False sf])
qed

lemma full_path_abs: "take 1 (cwd w) = ''/'' \<Longrightarrow> take 1 (full_path w p) = ''/''"
  by (cases "cwd w") (auto simp: full_path_def path_join_def)

lemma abspath_full: "abspath w p = normpath (full_path w p)"
  by (simp add: abspath_def full_path_def)

lemma path_comps_abspath:
  "take 1 (cwd w) = ''/'' \<Longrightarrow> path_comps (abspath w p) = norm_comps (full_path w p)"
  unfolding abspath_full
  using normpath_abs(1)[OF full_path_abs, of w p] path_comps_join[OF norm_comps_normal]
  by simp

lemma norm_fold_empty: "foldl (norm_step b) acc [[]] = acc"
  by (simp add: norm_step_def)

lemma split_sep_snoc: "split_sep sep (a @ [sep]) = split_sep sep a @ [[]]"
  using split_sep_append[of sep a "[]"] by simp

lemma norm_comps_join:
  assumes "a \<noteq> []" "take 1 b \<noteq> ''/''"
  shows "norm_comps (path_join a b) = foldl (norm_step True) (norm_comps a) (split_sep (CHR ''/'') b)"
proof (cases "last a = CHR ''/''")
  case True
  then obtain a' where a: "a = a' @ ''/''" using assms(1) by (metis append_butlast_last_id)
  then have pj: "path_join a b = a' @ CHR ''/'' # b" using assms by (simp add: path_join_def)
  show ?thesis
    unfolding pj norm_comps_def split_sep_append
    by (simp add: a split_sep_snoc norm_step_def)
next
  case False
  then have pj: "path_join a b = a @ CHR ''/'' # b" using assms by (simp add: path_join_def)
  show ?thesis unfolding pj norm_comps_def split_sep_append by simp
qed

lemma foldl_path_join:
  assumes "a \<noteq> []" "last a \<noteq> CHR ''/''" "\<forall>x\<in>set xs. x \<noteq> [] \<and> CHR ''/'' \<notin> set x"
  shows "foldl path_join a xs = a @ concat (map (\<lambda>x. CHR ''/'' # x) xs)"
  using assms
proof (induction xs arbitrary: a)
  case Nil
  then show ?case by simp
next
  case (Cons x xs)
  have x: "x \<noteq> []" "CHR ''/'' \<notin> set x" using Cons.prems(3) by auto
  then have hx: "take 1 x \<noteq> ''/''" by (cases x) auto
  have pj: "path_join a x = a @ CHR ''/'' # x"
    using Cons.prems(1,2) hx by (simp add: path_join_def)
  have "last x \<in> set x" using x(1) by (rule last_in_set)
  then have "last x \<noteq> CHR ''/''" using x(2) by metis
  then have l: "last (a @ CHR ''/'' # x) \<noteq> CHR ''/''" using x(1) by simp
  show ?case
    using Cons.IH[of "a @ CHR ''/'' # x"] l Cons.prems(3) by (simp add: pj)
qed

lemma join_sep_concat: "join_sep sep (x # xs) = x @ concat (map (\<lambda>y. sep # y) xs)"
  by (induction xs arbitrary: x) auto

lemma path_join_list_eq:
  assumes "xs \<noteq> []" "\<forall>x\<in>set xs. x \<noteq> [] \<and> CHR ''/'' \<notin> set x"
  shows "path_join_list xs = join_sep (CHR ''/'') xs"
proof -
  obtain y ys where xs: "xs = y # ys" using assms(1) by (cases xs) auto
  have y: "y \<noteq> []" "CHR ''/'' \<notin> set y" using assms(2) xs by auto
  have "last y \<in> set y" using y(1) by (rule last_in_set)
  then have "last y \<noteq> CHR ''/''" using y(2) by metis
  then show ?thesis
    using foldl_path_join[of y ys] y assms(2) xs
    by (simp add: path_join_list_def join_sep_concat)
qed

lemma rel_list_ok:
  assumes "normal_comps P"
  shows "\<forall>x\<in>set (replicate k ''..'' @ drop i P). x \<noteq> [] \<and> CHR ''/'' \<notin> set x"
proof
  fix x assume "x \<in> set (replicate k ''..'' @ drop i P)"
  then consider "x = ''..''" | "x \<in> set P" by (auto dest: in_set_dropD)
  then show "x \<noteq> [] \<and> CHR ''/'' \<notin> set x"
  proof cases
    case 1
    then show ?thesis by simp
  next
    case 2
    then show ?thesis using assms unfolding normal_comps_def by blast
  qed
qed

lemma relpath_eq:
  assumes "take 1 (cwd w) = ''/''" "path \<noteq> []"
  shows "relpath w path start =
           Inr (rel_of (norm_comps (full_path w start)) (norm_comps (full_path w path)))"
proof -
  let ?S = "norm_comps (full_path w start)" and ?P = "norm_comps (full_path w path)"
  let ?i = "length (commonprefix ?S ?P)"
  let ?rl = "replicate (length ?S - ?i) ''..'' @ drop ?i ?P"
  have "?rl \<noteq> [] \<Longrightarrow> path_join_list ?rl = join_sep (CHR ''/'') ?rl"
    by (rule path_join_list_eq) (use rel_list_ok[OF norm_comps_normal] in blast)+
  then show ?thesis
    using assms(2) unfolding relpath_def path_comps_abspath[OF assms(1)] rel_of_def Let_def
    by simp
qed

lemma join_sep_hd:
  assumes "xs \<noteq> []" "\<forall>x\<in>set xs. x \<noteq> [] \<and> CHR ''/'' \<notin> set x"
  shows "join_sep (CHR ''/'') xs \<noteq> [] \<and> take 1 (join_sep (CHR ''/'') xs) \<noteq> ''/''"
proof -
  obtain y ys where xs: "xs = y # ys" using assms(1) by (cases xs) auto
  then obtain c cs where y: "y = c # cs" "c \<noteq> CHR ''/''" using assms(2) by (cases y) auto
  show ?thesis by (simp add: xs y join_sep_concat)
qed

lemma rel_of_props:
  assumes "normal_comps S" "normal_comps P"
  shows "rel_of S P \<noteq> []" "take 1 (rel_of S P) \<noteq> ''/''"
    "foldl (norm_step True) S (split_sep (CHR ''/'') (rel_of S P)) = P"
proof -
  let ?i = "length (commonprefix S P)"
  let ?rl = "replicate (length S - ?i) ''..'' @ drop ?i P"
  have ok: "\<forall>x\<in>set ?rl. x \<noteq> [] \<and> CHR ''/'' \<notin> set x" by (rule rel_list_ok[OF assms(2)])
  show "rel_of S P \<noteq> []" "take 1 (rel_of S P) \<noteq> ''/''"
    using join_sep_hd[OF _ ok] by (auto simp: rel_of_def Let_def)
  show "foldl (norm_step True) S (split_sep (CHR ''/'') (rel_of S P)) = P"
  proof (cases "?rl = []")
    case True
    have le: "?i \<le> length S" "?i \<le> length P" using commonprefix_le[of S P] by auto
    from True have "length S = ?i" "length P = ?i" using le by auto
    then have "S = P" using commonprefix_take[of S P] by (metis take_all order_refl)
    then show ?thesis using True by (simp add: rel_of_def Let_def norm_step_def)
  next
    case False
    have sf: "\<forall>x\<in>set ?rl. CHR ''/'' \<notin> set x" using ok by blast
    have "split_sep (CHR ''/'') (rel_of S P) = ?rl"
      using False split_join[OF False sf] by (simp add: rel_of_def Let_def)
    then show ?thesis using norm_fold_rel[OF assms refl] by simp
  qed
qed

lemma slashes_join:
  assumes "take 1 a = ''/''" "r \<noteq> []" "take 1 r \<noteq> ''/''"
  shows "slashes (path_join a r) = slashes a"
proof -
  obtain c cs where r: "r = c # cs" "c \<noteq> CHR ''/''" using assms(2,3) by (cases r) auto
  obtain t where a: "a = CHR ''/'' # t" using assms(1) by (cases a) auto
  show ?thesis
  proof (cases t)
    case Nil
    then show ?thesis using a r by (simp add: path_join_def slashes_def)
  next
    case (Cons x t')
    show ?thesis
    proof (cases t')
      case Nil
      then show ?thesis using a r Cons by (simp add: path_join_def slashes_def)
    next
      case (Cons y t'')
      then show ?thesis using a r \<open>t = x # t'\<close> by (simp add: path_join_def slashes_def)
    qed
  qed
qed

lemma abspath_rel:
  assumes cw: "take 1 (cwd w) = ''/''" and r: "r \<noteq> []" "take 1 r \<noteq> ''/''"
  shows "abspath w r = replicate (slashes (cwd w)) (CHR ''/'') @
           join_sep (CHR ''/'') (foldl (norm_step True) (norm_comps (cwd w)) (split_sep (CHR ''/'') r))"
proof -
  have ne: "cwd w \<noteq> []" using cw by auto
  have f: "full_path w r = path_join (cwd w) r" using r by (simp add: full_path_def)
  have a: "take 1 (path_join (cwd w) r) = ''/''" using full_path_abs[OF cw, of r] f by simp
  show ?thesis
    unfolding abspath_full f normpath_abs(1)[OF a] slashes_join[OF cw r]
      norm_comps_join[OF ne r(2)] ..
qed

lemma norm_comps_of_normal:
  assumes "normal_comps xs"
  shows "norm_comps (replicate k (CHR ''/'') @ join_sep (CHR ''/'') xs) = xs"
proof -
  have e: "foldl (norm_step True) acc (replicate k [] @ ys) = foldl (norm_step True) acc ys" for acc ys
    by (induction k) (simp_all add: norm_step_def)
  show ?thesis
  proof (cases "xs = []")
    case True
    then show ?thesis
      using e[of "[]" "[[]]"] by (simp add: norm_comps_def split_sep_replicate[where s="[]", simplified] norm_step_def)
  next
    case False
    have sf: "\<forall>x\<in>set xs. CHR ''/'' \<notin> set x" using assms by (simp add: normal_comps_def)
    show ?thesis
      unfolding norm_comps_def split_sep_replicate e split_join[OF False sf]
      using norm_fold_id[OF assms, of True "[]"] by simp
  qed
qed

lemma path_join_assoc:
  assumes "a \<noteq> []" "d \<noteq> []" "take 1 d \<noteq> ''/''" "take 1 y \<noteq> ''/''"
  shows "path_join a (path_join d y) = path_join (path_join a d) y"
proof -
  obtain c cs where d: "d = c # cs" "c \<noteq> CHR ''/''" using assms(2,3) by (cases d) auto
  have 1: "take 1 (path_join d y) \<noteq> ''/''" using assms(4) d by (simp add: path_join_def)
  have 2: "path_join a d \<noteq> []" "last (path_join a d) = last d"
    using assms(1,2,3) by (simp_all add: path_join_def)
  show ?thesis
    using assms 1 2 unfolding path_join_def[of a "path_join d y"] path_join_def[of "path_join a d" y]
    by (simp add: path_join_def)
qed

lemma norm_comps_full_join:
  assumes cw: "take 1 (cwd w) = ''/''" and y: "take 1 y \<noteq> ''/''"
  shows "norm_comps (full_path w (path_join d y)) =
         foldl (norm_step True) (norm_comps (full_path w d)) (split_sep (CHR ''/'') y)"
proof -
  have ne: "cwd w \<noteq> []" using cw by auto
  show ?thesis
  proof (cases "d = []")
    case True
    then have "path_join d y = y" using y by (simp add: path_join_def)
    moreover have "norm_comps (full_path w []) = norm_comps (cwd w)"
      using norm_comps_join[OF ne, of "[]"] by (simp add: full_path_def norm_step_def)
    ultimately show ?thesis using y True norm_comps_join[OF ne y] by (simp add: full_path_def)
  next
    case False
    show ?thesis
    proof (cases "take 1 d = ''/''")
      case True
      then have "take 1 (path_join d y) = ''/''" using y False
        by (cases d) (auto simp: path_join_def)
      then show ?thesis using True norm_comps_join[OF False y] by (simp add: full_path_def)
    next
      case nd: False
      have "take 1 (path_join d y) \<noteq> ''/''" using nd y False
        by (cases d) (auto simp: path_join_def)
      then have "full_path w (path_join d y) = path_join (path_join (cwd w) d) y"
        using path_join_assoc[OF ne False nd y] by (simp add: full_path_def)
      moreover have "path_join (cwd w) d \<noteq> []" using ne nd by (simp add: path_join_def)
      ultimately show ?thesis using nd norm_comps_join[OF _ y] by (simp add: full_path_def)
    qed
  qed
qed

lemma fixRelPath_eq:
  assumes "c \<noteq> []" "take 8 c \<noteq> ''+define+''"
  shows "fixRelPath w o' c d t =
           (case relpath w (path_join d (entry_path c)) t of
              Inl e \<Rightarrow> Inl e
            | Inr p \<Rightarrow> Inr (entry_prefix w d c @ (if abs_mode o' then abspath w p else p)))"
proof (cases "take 8 c = ''+incdir+''")
  case True
  then show ?thesis
    using assms unfolding fixRelPath_def entry_prefix_def entry_path_def by simp
next
  case False
  show ?thesis
  proof (cases "split_once (CHR '':'') c")
    case None
    then show ?thesis
      using assms False unfolding fixRelPath_def entry_prefix_def entry_path_def
      by (simp split: sum.splits)
  next
    case (Some ab)
    then show ?thesis
      using assms False unfolding fixRelPath_def entry_prefix_def entry_path_def
      by (cases ab) (simp split: sum.splits)
  qed
qed

lemma target_comps:
  assumes cw: "take 1 (cwd w) = ''/''" and t: "abspath w t = abspath w (cwd w)"
  shows "norm_comps (full_path w t) = norm_comps (cwd w)"
proof -
  have "full_path w (cwd w) = cwd w" using cw by (simp add: full_path_def)
  then show ?thesis
    using path_comps_abspath[OF cw, of t] path_comps_abspath[OF cw, of "cwd w"] t by simp
qed

lemma path_join_nonempty: "x \<noteq> [] \<Longrightarrow> path_join d x \<noteq> []"
  by (auto simp: path_join_def)

lemma path_join_absolute: "take 1 x = ''/'' \<Longrightarrow> path_join d x = x"
  by (simp add: path_join_def)

lemma renormalize:
  assumes cw: "take 1 (cwd w) = ''/''"
    and t: "abspath w t = abspath w (cwd w)"
    and m: "abs_mode o' \<or> abspath w d = abspath w (cwd w)"
    and j: "path_join d x \<noteq> []"
  defines "r \<equiv> rel_of (norm_comps (cwd w)) (norm_comps (full_path w (path_join d x)))"
  defines "n \<equiv> (if abs_mode o' then abspath w r else r)"
  shows "relpath w (path_join d x) t = Inr r" "n \<noteq> []" "relpath w (path_join d n) t = Inr r"
proof -
  let ?S = "norm_comps (cwd w)" and ?P = "norm_comps (full_path w (path_join d x))"
  have S: "norm_comps (full_path w t) = ?S" by (rule target_comps[OF cw t])
  have nS: "normal_comps ?S" and nP: "normal_comps ?P" by (rule norm_comps_normal)+
  have r: "r \<noteq> []" "take 1 r \<noteq> ''/''" "foldl (norm_step True) ?S (split_sep (CHR ''/'') r) = ?P"
    unfolding r_def by (rule rel_of_props[OF nS nP])+
  show 1: "relpath w (path_join d x) t = Inr r"
    using relpath_eq[OF cw j, of t] by (simp add: S r_def)
  have k: "1 \<le> slashes (cwd w)" using cw by (simp add: slashes_def)
  have a: "abspath w r = replicate (slashes (cwd w)) (CHR ''/'') @ join_sep (CHR ''/'') ?P"
    using abspath_rel[OF cw r(1,2)] r(3) by simp
  have a1: "take 1 (abspath w r) = ''/''"
    unfolding a using k by (cases "slashes (cwd w)") auto
  show 2: "n \<noteq> []" using r(1) a1 by (auto simp: n_def)
  have "norm_comps (full_path w (path_join d n)) = ?P"
  proof (cases "abs_mode o'")
    case True
    then have "path_join d n = abspath w r" "full_path w (abspath w r) = abspath w r"
      using a1 by (simp_all add: n_def path_join_absolute full_path_def)
    then show ?thesis using norm_comps_of_normal[OF nP] a by simp
  next
    case False
    then have "abspath w d = abspath w (cwd w)" using m by simp
    then have "norm_comps (full_path w d) = ?S" by (rule target_comps[OF cw])
    then show ?thesis using False norm_comps_full_join[OF cw r(2), of d] r(3) by (simp add: n_def)
  qed
  then show "relpath w (path_join d n) t = Inr r"
    using relpath_eq[OF cw path_join_nonempty[OF 2], of d t] by (simp add: S r_def)
qed

lemma take8_incdir: "take 8 (''+incdir+'' @ n) = ''+incdir+''" "drop 8 (''+incdir+'' @ n) = n"
  by simp_all

lemma split_once_fst: "split_once ch s = Some (a, b) \<Longrightarrow> ch \<notin> set a"
  by (auto simp: split_once_def split: if_splits dest: set_takeWhileD)

lemma split_once_app: "ch \<notin> set a \<Longrightarrow> split_once ch (a @ ch # n) = Some (a, n)"
proof -
  assume a: "ch \<notin> set a"
  then have "takeWhile (\<lambda>c. c \<noteq> ch) (a @ ch # n) = a" by (induction a) auto
  moreover from a have "dropWhile (\<lambda>c. c \<noteq> ch) (a @ ch # n) = ch # n" by (induction a) auto
  ultimately show ?thesis by (simp add: split_once_def)
qed

lemma take_colon:
  assumes "ch \<notin> set a" "ch \<notin> set K" "length K = k" "take k (a @ ch # y) = K"
  shows "take k (a @ ch # x) = K"
proof (cases "k \<le> length a")
  case True
  then show ?thesis using assms(4) by simp
next
  case False
  then have "K ! length a = ch" using assms(4) by (auto simp: nth_append)
  moreover have "length a < length K" using False assms(3) by simp
  ultimately have "ch \<in> set K" by (metis nth_mem)
  then show ?thesis using assms(2) by simp
qed

lemma incdir_entry:
  "entry_prefix w d (''+incdir+'' @ n) = ''+incdir+'' \<and> entry_path (''+incdir+'' @ n) = n \<and>
   ''+incdir+'' @ n \<noteq> [] \<and> take 8 (''+incdir+'' @ n) \<noteq> ''+define+''"
  by (simp add: entry_prefix_def entry_path_def)

lemma colon_entry:
  assumes ca: "CHR '':'' \<notin> set a"
    and c1: "take 8 (a @ CHR '':'' # b') \<noteq> ''+define+''"
    and c2: "take 8 (a @ CHR '':'' # b') \<noteq> ''+incdir+''"
  shows "entry_prefix w d (a @ CHR '':'' # n) = a @ '':'' \<and> entry_path (a @ CHR '':'' # n) = n \<and>
         take 8 (a @ CHR '':'' # n) \<noteq> ''+define+''"
proof -
  let ?e = "a @ CHR '':'' # n"
  have cd: "CHR '':'' \<notin> set ''+define+''" and ci: "CHR '':'' \<notin> set ''+incdir+''" by simp_all
  have ld: "length ''+define+'' = 8" and li: "length ''+incdir+'' = 8" by simp_all
  have t1: "take 8 ?e \<noteq> ''+define+''"
  proof
    assume h: "take 8 ?e = ''+define+''"
    have "take 8 (a @ CHR '':'' # b') = ''+define+''"
      by (rule take_colon[OF ca cd ld h])
    then show False using c1 by blast
  qed
  have t2: "take 8 ?e \<noteq> ''+incdir+''"
  proof
    assume h: "take 8 ?e = ''+incdir+''"
    have "take 8 (a @ CHR '':'' # b') = ''+incdir+''"
      by (rule take_colon[OF ca ci li h])
    then show False using c2 by blast
  qed
  have s2: "split_once (CHR '':'') ?e = Some (a, n)" by (rule split_once_app[OF ca])
  have "entry_prefix w d ?e = a @ '':''"
    unfolding entry_prefix_def using t2 s2 by simp
  moreover have "entry_path ?e = n"
    unfolding entry_path_def using t2 s2 by simp
  ultimately show ?thesis using t1 by blast
qed

lemma bare_entry:
  assumes "bare_file w d e"
  shows "entry_prefix w d e = [] \<and> entry_path e = e \<and> e \<noteq> [] \<and> take 8 e \<noteq> ''+define+''"
proof -
  from assms have 1: "e \<noteq> []" and 2: "take 8 e \<noteq> ''+define+''" and 3: "take 8 e \<noteq> ''+incdir+''"
    and 4: "CHR '':'' \<notin> set e" and 5: "\<not> isdir w (path_join d e)"
    unfolding bare_file_def by blast+
  have s: "split_once (CHR '':'') e = None" using 4 unfolding split_once_def by simp
  have "entry_prefix w d e = []" unfolding entry_prefix_def using 3 s 5 by simp
  moreover have "entry_path e = e" unfolding entry_path_def using 3 s by simp
  ultimately show ?thesis using 1 2 by blast
qed

lemma prefix_stable:
  assumes c: "c \<noteq> []" "take 8 c \<noteq> ''+define+''"
    and n: "n \<noteq> []"
    and e: "e = entry_prefix w d c @ n"
    and b: "bare_file w d c \<longrightarrow> bare_file w d e"
  shows "e \<noteq> [] \<and> take 8 e \<noteq> ''+define+'' \<and> entry_prefix w d e = entry_prefix w d c \<and>
         entry_path e = n"
proof (cases "take 8 c = ''+incdir+''")
  case True
  then have p: "entry_prefix w d c = ''+incdir+''" unfolding entry_prefix_def by simp
  show ?thesis unfolding e p using incdir_entry[of w d n] by blast
next
  case ni: False
  show ?thesis
  proof (cases "split_once (CHR '':'') c")
    case None
    show ?thesis
    proof (cases "isdir w (path_join d c)")
      case True
      have p: "entry_prefix w d c = ''+incdir+''"
        unfolding entry_prefix_def using ni None True by simp
      show ?thesis unfolding e p using incdir_entry[of w d n] by blast
    next
      case False
      have "CHR '':'' \<notin> set c" using None unfolding split_once_def by (simp split: if_splits)
      then have "bare_file w d c" unfolding bare_file_def using c ni False by blast
      then have be: "bare_file w d e" using b by blast
      have p: "entry_prefix w d c = []" unfolding entry_prefix_def using ni None False by simp
      have en: "e = n" unfolding e p by simp
      show ?thesis using bare_entry[OF be] p en by simp
    qed
  next
    case (Some ab)
    obtain a b' where ab: "ab = (a, b')" by (cases ab)
    have sp: "split_once (CHR '':'') c = Some (a, b')" using Some ab by simp
    have ca: "CHR '':'' \<notin> set a" by (rule split_once_fst[OF sp])
    have cc: "c = a @ CHR '':'' # b'" by (rule split_once_Some[OF sp])
    have p: "entry_prefix w d c = a @ '':''" unfolding entry_prefix_def using ni sp by simp
    have ee: "e = a @ CHR '':'' # n" unfolding e p by simp
    have c1: "take 8 (a @ CHR '':'' # b') \<noteq> ''+define+''" using c(2) unfolding cc .
    have c2: "take 8 (a @ CHR '':'' # b') \<noteq> ''+incdir+''" using ni unfolding cc .
    show ?thesis unfolding ee p using colon_entry[OF ca c1 c2, of w d n] by simp
  qed
qed

lemma fixRelPath_world:
  assumes "cwd w' = cwd w" "isdir w' = isdir w" "abs_mode o'' = abs_mode o'"
  shows "fixRelPath w' o'' c d t = fixRelPath w o' c d t"
proof -
  have a: "abspath w' = abspath w" by (rule ext) (simp add: abspath_def assms)
  have r: "relpath w' = relpath w" by (intro ext) (simp add: relpath_def a)
  show ?thesis unfolding fixRelPath_def r a assms ..
qed

lemma fixRelPath_define:
  assumes "c = [] \<or> take 8 c = ''+define+''"
  shows "fixRelPath w o' c d t = Inr c"
proof (cases "c = []")
  case True
  then show ?thesis by (simp add: fixRelPath_def)
next
  case False
  then have h: "take 8 c = ''+define+''" using assms by blast
  show ?thesis unfolding fixRelPath_def h using False by simp
qed

lemma fixRelPath_again:
  assumes cw: "take 1 (cwd w) = ''/''"
    and t: "abspath w t = abspath w (cwd w)"
    and m: "abs_mode o' \<or> abspath w d = abspath w (cwd w)"
    and f: "fixRelPath w o' c d t = Inr e"
    and b: "bare_file w d c \<longrightarrow> bare_file w d e"
  shows "fixRelPath w o' e d t = Inr e"
proof (cases "c = [] \<or> take 8 c = ''+define+''")
  case True
  then have "e = c" using f fixRelPath_define[of c w o' d t] by simp
  then show ?thesis using f by simp
next
  case False
  then have c: "c \<noteq> []" "take 8 c \<noteq> ''+define+''" by simp_all
  let ?x = "entry_path c"
  have j: "path_join d ?x \<noteq> []"
  proof
    assume "path_join d ?x = []"
    then have "relpath w (path_join d ?x) t = Inl ValueErrorNoPath" by (simp add: relpath_def)
    then show False using f unfolding fixRelPath_eq[OF c] by simp
  qed
  define r where "r = rel_of (norm_comps (cwd w)) (norm_comps (full_path w (path_join d ?x)))"
  define n where "n = (if abs_mode o' then abspath w r else r)"
  have 1: "relpath w (path_join d ?x) t = Inr r" and 2: "n \<noteq> []"
    and 3: "relpath w (path_join d n) t = Inr r"
    unfolding n_def r_def by (rule renormalize[OF cw t m j])+
  have e: "e = entry_prefix w d c @ n"
    using f unfolding fixRelPath_eq[OF c] 1 n_def by simp
  from prefix_stable[OF c 2 e b]
  have e1: "e \<noteq> []" and e2: "take 8 e \<noteq> ''+define+''"
    and e3: "entry_prefix w d e = entry_prefix w d c" and e4: "entry_path e = n" by blast+
  show ?thesis
    unfolding fixRelPath_eq[OF e1 e2] e3 e4 3 using e n_def by simp
qed

lemma relpath_ok: "path \<noteq> [] \<Longrightarrow> \<exists>q. relpath w path start = Inr q"
  unfolding relpath_def Let_def by (simp split: if_splits)

text \<open>
  C8: an entry that is not empty, has neither the \<open>+define+\<close> nor the \<open>+incdir+\<close>
  prefix and no \<open>cmd:\<close> form, and whose path joined to the manifest's directory is a
  directory, is normalized to \<open>+incdir+\<close> followed by its normalized path (so that
  emission reads it as an include directory).
\<close>

theorem C8_bare_directory_is_incdir:
  assumes "c \<noteq> []" "take 8 c \<noteq> ''+define+''" "take 8 c \<noteq> ''+incdir+''"
    "CHR '':'' \<notin> set c" "isdir w (path_join config_dir c)"
  shows "\<exists>p. relpath w (path_join config_dir c) tgt_dir = Inr p \<and>
             fixRelPath w o' c config_dir tgt_dir =
               Inr (''+incdir+'' @ (if abs_mode o' then abspath w p else p)) \<and>
             take 8 (''+incdir+'' @ (if abs_mode o' then abspath w p else p)) = ''+incdir+''"
proof -
  have s: "split_once (CHR '':'') c = None" using assms(4) by (simp add: split_once_def)
  have p: "entry_prefix w config_dir c = ''+incdir+''"
    unfolding entry_prefix_def using assms(3,5) s by simp
  have x: "entry_path c = c" unfolding entry_path_def using assms(3) s by simp
  have "path_join config_dir c \<noteq> []" by (rule path_join_nonempty[OF assms(1)])
  then obtain q where q: "relpath w (path_join config_dir c) tgt_dir = Inr q"
    using relpath_ok by blast
  show ?thesis
    unfolding fixRelPath_eq[OF assms(1,2)] p x q by simp
qed

theorem C8_bare_directory_is_incdir_witness:
  "fixRelPath example_world (parse_args example_world ''proj/a.txt'' None None False None)
     ''inc'' ''proj'' ''/w'' = Inr ''+incdir+proj/inc''"
proof -
  let ?o = "parse_args example_world ''proj/a.txt'' None None False None"
  have j: "path_join ''proj'' ''inc'' = ''proj/inc''" by code_simp
  have d: "isdir example_world (path_join ''proj'' ''inc'')"
    unfolding j by (simp add: example_world_def)
  have r: "relpath example_world ''proj/inc'' ''/w'' = Inr ''proj/inc''" by code_simp
  have a: "\<not> abs_mode ?o" by (simp add: parse_args_def)
  from C8_bare_directory_is_incdir [of "''inc''" example_world "''proj''" "''/w''" ?o, OF _ _ _ _ d]
  show ?thesis unfolding j r using a by simp
qed

text \<open>
  C4, as stated: normalizing an already normalized entry against the same manifest
  directory, target directory and mode gives the same string. In relative mode, with the
  manifest in the directory \<open>sub\<close> of the working directory, \<open>a.sv\<close> is normalized
  to \<open>sub/a.sv\<close>, and \<open>sub/a.sv\<close> to \<open>sub/sub/a.sv\<close>.
\<close>

theorem C4_relative_not_idempotent:
  "fixRelPath example_world (parse_args example_world ''sub/m.txt'' None None False None)
     ''a.sv'' (dirname ''sub/m.txt'') ''/w'' = Inr ''sub/a.sv'' \<and>
   fixRelPath example_world (parse_args example_world ''sub/m.txt'' None None False None)
     ''sub/a.sv'' (dirname ''sub/m.txt'') ''/w'' = Inr ''sub/sub/a.sv'' \<and>
   ''sub/sub/a.sv'' \<noteq> ''sub/a.sv''"
  by code_simp

text \<open>
  C4, amended: the result of normalization depends only on the entry, the manifest
  directory, the target directory, the absolute-mode flag, the working directory and the
  directory test. When the working directory is absolute, the target directory names the
  working directory, and either absolute mode is on or the manifest's directory names the
  working directory too, normalizing a successfully normalized entry again gives the same
  string, provided that an entry read as a plain file path is still read as one after
  normalization.
\<close>

theorem C4_fixRelPath_idempotent:
  "(cwd w' = cwd w \<and> isdir w' = isdir w \<and> abs_mode o'' = abs_mode o' \<longrightarrow>
      fixRelPath w' o'' c d t = fixRelPath w o' c d t) \<and>
   (take 1 (cwd w) = ''/'' \<and> abspath w t = abspath w (cwd w) \<and>
    (abs_mode o' \<or> abspath w d = abspath w (cwd w)) \<and>
    fixRelPath w o' c d t = Inr e \<and>
    (bare_file w d c \<longrightarrow> bare_file w d e) \<longrightarrow>
      fixRelPath w o' e d t = Inr e)"
  using fixRelPath_world[of w' w o'' o' c d t] fixRelPath_again[of w t o' d c e] by blast

theorem C4_fixRelPath_idempotent_witness:
  "fixRelPath (example_world\<lparr>files := (\<lambda>p. None)\<rparr>)
     (parse_args example_world ''proj/a.txt'' None (Some Abs) True None)
     ''QI:x/../a.tcl'' ''proj'' ''/w'' = Inr ''QI:/w/proj/a.tcl'' \<and>
   fixRelPath example_world (parse_args example_world ''proj/a.txt'' None (Some Abs) False None)
     ''QI:/w/proj/a.tcl'' ''proj'' ''/w'' = Inr ''QI:/w/proj/a.tcl'' \<and>
   fixRelPath example_world (parse_args example_world ''m.txt'' None None False None)
     ''rtl/../top.sv'' [] ''/w'' = Inr ''top.sv'' \<and>
   fixRelPath example_world (parse_args example_world ''m.txt'' None None False None)
     ''top.sv'' [] ''/w'' = Inr ''top.sv''"
proof -
  let ?w = example_world
  let ?oa = "parse_args example_world ''proj/a.txt'' None (Some Abs) False None"
  let ?oq = "parse_args example_world ''proj/a.txt'' None (Some Abs) True None"
  let ?or = "parse_args example_world ''m.txt'' None None False None"
  have cw: "cwd ?w = ''/w''" by (simp add: example_world_def)
  have c1: "take 1 (cwd ?w) = ''/''" unfolding cw by simp
  have t: "abspath ?w ''/w'' = abspath ?w (cwd ?w)" unfolding cw ..
  have d: "abspath ?w [] = abspath ?w (cwd ?w)" unfolding cw by code_simp
  have fa: "fixRelPath ?w ?oa ''QI:x/../a.tcl'' ''proj'' ''/w'' = Inr ''QI:/w/proj/a.tcl''"
    by code_simp
  have fr: "fixRelPath ?w ?or ''rtl/../top.sv'' [] ''/w'' = Inr ''top.sv''"
    by code_simp
  have ba: "\<not> bare_file ?w ''proj'' ''QI:x/../a.tcl''" by (simp add: bare_file_def)
  have j: "path_join [] ''top.sv'' = ''top.sv''" by code_simp
  have br: "bare_file ?w [] ''top.sv''"
    unfolding bare_file_def j by (simp add: example_world_def)
  have ma: "abs_mode ?oa" by (simp add: parse_args_def)
  have 1: "fixRelPath (?w\<lparr>files := (\<lambda>p. None)\<rparr>) ?oq ''QI:x/../a.tcl'' ''proj'' ''/w''
           = fixRelPath ?w ?oa ''QI:x/../a.tcl'' ''proj'' ''/w''"
    using C4_fixRelPath_idempotent [of "?w\<lparr>files := (\<lambda>p. None)\<rparr>" ?w ?oq ?oa]
    by (simp add: parse_args_def)
  have 2: "fixRelPath ?w ?oa ''QI:/w/proj/a.tcl'' ''proj'' ''/w'' = Inr ''QI:/w/proj/a.tcl''"
    using C4_fixRelPath_idempotent [of ?w ?w ?oa ?oa "''QI:x/../a.tcl''" "''proj''" "''/w''"
        "''QI:/w/proj/a.tcl''"] c1 t ma fa ba by blast
  have 3: "fixRelPath ?w ?or ''top.sv'' [] ''/w'' = Inr ''top.sv''"
    using C4_fixRelPath_idempotent [of ?w ?w ?or ?or "''rtl/../top.sv''" "[]" "''/w''"
        "''top.sv''"] c1 t d fr br by blast
  show ?thesis using 1 2 3 fa fr by simp
qed

section \<open>Parsing\<close>

lemma parseLines_acc:
  "parseLines inc w o' dir tgt ls cfg s =
     (case parseLines inc w o' dir tgt ls [] s of
        None \<Rightarrow> None
      | Some (Inl e, s') \<Rightarrow> Some (Inl e, s')
      | Some (Inr es, s') \<Rightarrow> Some (Inr (cfg @ es), s'))"
proof (induction ls arbitrary: cfg s)
  case Nil
  then show ?case by simp
next
  case (Cons l ls)
  show ?case
  proof (cases "parseLine inc w o' dir tgt l s")
    case None
    then show ?thesis by simp
  next
    case (Some r)
    obtain x s1 where r: "r = (x, s1)" by (cases r)
    show ?thesis
    proof (cases x)
      case (Inl e)
      then show ?thesis using Some r by simp
    next
      case (Inr es)
      have "parseLines inc w o' dir tgt (l # ls) cfg s = parseLines inc w o' dir tgt ls (cfg @ es) s1"
        using Some r Inr by simp
      moreover have "parseLines inc w o' dir tgt (l # ls) [] s = parseLines inc w o' dir tgt ls es s1"
        using Some r Inr by simp
      ultimately show ?thesis
        using Cons.IH[of "cfg @ es" s1] Cons.IH[of es s1]
        by (simp split: option.splits prod.splits sum.splits)
    qed
  qed
qed

lemma parseLines_append:
  "parseLines inc w o' dir tgt (l1 @ l2) cfg s =
     (case parseLines inc w o' dir tgt l1 cfg s of
        None \<Rightarrow> None
      | Some (Inl e, s1) \<Rightarrow> Some (Inl e, s1)
      | Some (Inr cfg1, s1) \<Rightarrow> parseLines inc w o' dir tgt l2 cfg1 s1)"
proof (induction l1 arbitrary: cfg s)
  case Nil
  then show ?case by simp
next
  case (Cons l l1)
  show ?case
  proof (cases "parseLine inc w o' dir tgt l s")
    case None
    then show ?thesis by simp
  next
    case (Some r)
    obtain x s1 where r: "r = (x, s1)" by (cases r)
    show ?thesis
    proof (cases x)
      case (Inl e)
      then show ?thesis using Some r by simp
    next
      case (Inr es)
      then show ?thesis using Some r Cons.IH[of "cfg @ es" s1] by simp
    qed
  qed
qed

lemma parseLine_include:
  assumes "resolveVars w o' (strip_comment l) s = (Inr (), s')"
    "expandvars (env s') (strip_comment l) = ''C:'' @ b"
  shows "parseLine inc w o' dir tgt l s = inc (path_join dir b) s'"
  using assms by (simp add: parseLine_def Let_def)

lemma parseConfigFile_Suc:
  assumes "a \<noteq> []" "files w a = Some ls"
  shows "parseConfigFile (Suc n) w o' a tgt s =
         parseLines (\<lambda>nm st. parseConfigFile n w o' nm tgt st) w o' (dirname a) tgt ls [] s"
  using assms by simp

lemma splice:
  assumes a: "a \<noteq> []" and f: "files w a = Some (pre @ l # post)"
    and p1: "parseLines (\<lambda>nm st. parseConfigFile n w o' nm tgt st) w o' (dirname a) tgt pre [] s
              = Some (Inr e1, s1)"
    and rv: "resolveVars w o' (strip_comment l) s1 = (Inr (), s1')"
    and ex: "expandvars (env s1') (strip_comment l) = ''C:'' @ b"
    and inc: "parseConfigFile n w o' (path_join (dirname a) b) tgt s1' = Some (Inr e2, s2)"
    and p3: "parseLines (\<lambda>nm st. parseConfigFile n w o' nm tgt st) w o' (dirname a) tgt post [] s2
              = Some (Inr e3, s3)"
  shows "parseConfigFile (Suc n) w o' a tgt s = Some (Inr (e1 @ e2 @ e3), s3)"
proof -
  let ?inc = "\<lambda>nm st. parseConfigFile n w o' nm tgt st"
  let ?pl = "parseLines ?inc w o' (dirname a) tgt"
  have l: "parseLine ?inc w o' (dirname a) tgt l s1 = Some (Inr e2, s2)"
    using parseLine_include[OF rv ex, of ?inc "dirname a" tgt] inc by simp
  have "?pl (l # post) e1 s1 = ?pl post (e1 @ e2) s2" using l by simp
  also have "\<dots> = Some (Inr ((e1 @ e2) @ e3), s3)"
    using parseLines_acc[of ?inc w o' "dirname a" tgt post "e1 @ e2" s2] p3 by simp
  finally have "?pl (pre @ l # post) [] s = Some (Inr (e1 @ e2 @ e3), s3)"
    using parseLines_append[of ?inc w o' "dirname a" tgt pre "l # post" "[]" s] p1 by simp
  then show ?thesis unfolding parseConfigFile_Suc[OF a f] .
qed

lemma only_include:
  assumes a: "a \<noteq> []" and f: "files w a = Some [l]"
    and rv: "resolveVars w o' (strip_comment l) s = (Inr (), s')"
    and ex: "expandvars (env s') (strip_comment l) = ''C:'' @ b"
  shows "parseConfigFile (Suc n) w o' a tgt s = parseConfigFile n w o' (path_join (dirname a) b) tgt s'"
proof -
  let ?inc = "\<lambda>nm st. parseConfigFile n w o' nm tgt st"
  have l: "parseLine ?inc w o' (dirname a) tgt l s = ?inc (path_join (dirname a) b) s'"
    by (rule parseLine_include[OF rv ex])
  show ?thesis
    unfolding parseConfigFile_Suc[OF a f]
    by (cases "parseConfigFile n w o' (path_join (dirname a) b) tgt s'")
      (auto simp: l split: prod.splits sum.splits)
qed

lemma expandvars_id: "CHR ''$'' \<notin> set c \<Longrightarrow> expandvars e c = c"
  by (induction c) auto

lemma single_source:
  assumes a: "a \<noteq> []" and f: "files w a = Some [l]"
    and rv: "resolveVars w o' (strip_comment l) s = (Inr (), s')"
    and ex: "expandvars (env s') (strip_comment l) = c"
    and c: "take 2 c \<noteq> ''C:''" "c \<noteq> []"
    and fx: "fixRelPath w o' c (dirname a) tgt = Inr e"
  shows "parseConfigFile (Suc n) w o' a tgt s = Some (Inr [e], s')"
  unfolding parseConfigFile_Suc[OF a f]
  using rv ex c fx by (simp add: parseLine_def Let_def)

text \<open>
  C2: a line that, after comment removal and variable expansion, reads \<open>C:B\<close> is
  replaced by the entries of parsing \<open>B\<close>, resolved relative to the directory of the
  including manifest: the result of parsing \<open>A\<close> is the entries of the lines before,
  then those of \<open>B\<close>, then those of the lines after, in this order. In particular, when
  \<open>A\<close> has only the line \<open>C:B\<close> and \<open>B\<close> has one source-file line, parsing \<open>A\<close>
  returns (with one more level of nesting allowed) the same one-element list as parsing
  \<open>B\<close> under its name relative to the directory of \<open>A\<close>.
\<close>

theorem C2_recursive_include_spliced:
  "(a \<noteq> [] \<and> files w a = Some (pre @ l # post) \<and>
    parseLines (\<lambda>nm st. parseConfigFile n w o' nm tgt st) w o' (dirname a) tgt pre [] s
      = Some (Inr e1, s1) \<and>
    resolveVars w o' (strip_comment l) s1 = (Inr (), s1') \<and>
    expandvars (env s1') (strip_comment l) = ''C:'' @ b \<and>
    parseConfigFile n w o' (path_join (dirname a) b) tgt s1' = Some (Inr e2, s2) \<and>
    parseLines (\<lambda>nm st. parseConfigFile n w o' nm tgt st) w o' (dirname a) tgt post [] s2
      = Some (Inr e3, s3) \<longrightarrow>
      parseConfigFile (Suc n) w o' a tgt s = Some (Inr (e1 @ e2 @ e3), s3)) \<and>
   (a \<noteq> [] \<and> files w a = Some [l] \<and>
    resolveVars w o' (strip_comment l) s = (Inr (), s') \<and>
    expandvars (env s') (strip_comment l) = ''C:'' @ b \<and>
    path_join (dirname a) b \<noteq> [] \<and>
    files w (path_join (dirname a) b) = Some [lb] \<and>
    resolveVars w o' (strip_comment lb) s' = (Inr (), s'') \<and>
    expandvars (env s'') (strip_comment lb) = c \<and> take 2 c \<noteq> ''C:'' \<and> c \<noteq> [] \<and>
    fixRelPath w o' c (dirname (path_join (dirname a) b)) tgt = Inr e \<longrightarrow>
      parseConfigFile (Suc n) w o' (path_join (dirname a) b) tgt s' = Some (Inr [e], s'') \<and>
      parseConfigFile (Suc (Suc n)) w o' a tgt s = Some (Inr [e], s''))"
proof (rule conjI; rule impI)
  assume h: "a \<noteq> [] \<and> files w a = Some (pre @ l # post) \<and>
    parseLines (\<lambda>nm st. parseConfigFile n w o' nm tgt st) w o' (dirname a) tgt pre [] s
      = Some (Inr e1, s1) \<and>
    resolveVars w o' (strip_comment l) s1 = (Inr (), s1') \<and>
    expandvars (env s1') (strip_comment l) = ''C:'' @ b \<and>
    parseConfigFile n w o' (path_join (dirname a) b) tgt s1' = Some (Inr e2, s2) \<and>
    parseLines (\<lambda>nm st. parseConfigFile n w o' nm tgt st) w o' (dirname a) tgt post [] s2
      = Some (Inr e3, s3)"
  then show "parseConfigFile (Suc n) w o' a tgt s = Some (Inr (e1 @ e2 @ e3), s3)"
    using splice[of a w pre l post n o' tgt s e1 s1 s1' b e2 s2 e3 s3] by blast
next
  assume h: "a \<noteq> [] \<and> files w a = Some [l] \<and>
    resolveVars w o' (strip_comment l) s = (Inr (), s') \<and>
    expandvars (env s') (strip_comment l) = ''C:'' @ b \<and>
    path_join (dirname a) b \<noteq> [] \<and>
    files w (path_join (dirname a) b) = Some [lb] \<and>
    resolveVars w o' (strip_comment lb) s' = (Inr (), s'') \<and>
    expandvars (env s'') (strip_comment lb) = c \<and> take 2 c \<noteq> ''C:'' \<and> c \<noteq> [] \<and>
    fixRelPath w o' c (dirname (path_join (dirname a) b)) tgt = Inr e"
  then have 1: "parseConfigFile (Suc n) w o' (path_join (dirname a) b) tgt s' = Some (Inr [e], s'')"
    using single_source[of "path_join (dirname a) b" w lb o' s' s'' c tgt e n] by blast
  from h have "parseConfigFile (Suc (Suc n)) w o' a tgt s =
               parseConfigFile (Suc n) w o' (path_join (dirname a) b) tgt s'"
    using only_include[of a w l o' s s' b "Suc n" tgt] by blast
  with 1 show "parseConfigFile (Suc n) w o' (path_join (dirname a) b) tgt s' = Some (Inr [e], s'') \<and>
      parseConfigFile (Suc (Suc n)) w o' a tgt s = Some (Inr [e], s'')" by simp
qed

theorem C2_recursive_include_spliced_witness:
  "parseConfigFile 1 example_world (parse_args example_world ''proj/a.txt'' None None False None)
     ''proj/sub/b.txt'' ''/w'' example_state = Some (Inr [''proj/sub/top.sv''], example_state) \<and>
   parseConfigFile 2 example_world (parse_args example_world ''proj/a.txt'' None None False None)
     ''proj/a.txt'' ''/w'' example_state = Some (Inr [''proj/sub/top.sv''], example_state)"
proof -
  let ?w = example_world
  let ?o = "parse_args example_world ''proj/a.txt'' None None False None"
  let ?l = "''C:sub/b.txt'' @ [newline]" and ?lb = "''top.sv'' @ [newline]"
  have d: "dirname ''proj/a.txt'' = ''proj''" by code_simp
  have j: "path_join ''proj'' ''sub/b.txt'' = ''proj/sub/b.txt''" by code_simp
  have d2: "dirname ''proj/sub/b.txt'' = ''proj/sub''" by code_simp
  have fa: "files ?w ''proj/a.txt'' = Some [?l]"
    by (simp add: example_world_def example_files_def)
  have fb: "files ?w ''proj/sub/b.txt'' = Some [?lb]"
    by (simp add: example_world_def example_files_def)
  have sl: "strip_comment ?l = ''C:sub/b.txt''" by code_simp
  have sb: "strip_comment ?lb = ''top.sv''" by code_simp
  have n1: "\<not> contains FAMILY ''C:sub/b.txt''" "\<not> contains QVERSION ''C:sub/b.txt''"
    "\<not> contains FAMILY ''top.sv''" "\<not> contains QVERSION ''top.sv''" by code_simp+
  have r1: "resolveVars ?w ?o (strip_comment ?l) example_state = (Inr (), example_state)"
    unfolding sl using n1 by (simp add: resolveVars_def)
  have r2: "resolveVars ?w ?o (strip_comment ?lb) example_state = (Inr (), example_state)"
    unfolding sb using n1 by (simp add: resolveVars_def)
  have x1: "expandvars (env example_state) (strip_comment ?l) = ''C:'' @ ''sub/b.txt''"
    unfolding sl by (simp add: expandvars_id)
  have x2: "expandvars (env example_state) (strip_comment ?lb) = ''top.sv''"
    unfolding sb by (simp add: expandvars_id)
  have fx: "fixRelPath ?w ?o ''top.sv'' ''proj/sub'' ''/w'' = Inr ''proj/sub/top.sv''"
    by code_simp
  have two: "(2::nat) = Suc (Suc 0)" "(1::nat) = Suc 0" by simp_all
  have inner: "parseConfigFile (Suc 0) ?w ?o ''proj/sub/b.txt'' ''/w'' example_state
               = Some (Inr [''proj/sub/top.sv''], example_state)"
    using C2_recursive_include_spliced [of "''proj/a.txt''" ?w "[]" ?l "[]" 0 ?o "''/w''"
        example_state "[]" example_state example_state "''sub/b.txt''" "[]" example_state
        "[]" example_state example_state ?lb example_state "''top.sv''" "''proj/sub/top.sv''"]
      fa fb r1 r2 x1 x2 fx
    unfolding d j d2 by simp
  have outer: "parseConfigFile (Suc (Suc 0)) ?w ?o ''proj/a.txt'' ''/w'' example_state
               = Some (Inr ([] @ [''proj/sub/top.sv''] @ []), example_state)"
    using C2_recursive_include_spliced [of "''proj/a.txt''" ?w "[]" ?l "[]" "Suc 0" ?o "''/w''"
        example_state "[]" example_state example_state "''sub/b.txt''" "[''proj/sub/top.sv'']"
        example_state "[]" example_state]
      fa r1 x1 inner
    unfolding d j by simp
  show ?thesis using inner outer unfolding two by simp
qed




lemma fam_step_weaken: "fam_step True s s' \<Longrightarrow> fam_step b s s'"
  by (auto simp: fam_step_def split: option.splits)














end
